theory Spec2Isabelle
  imports Main "HOL-Library.Char_ord"
begin

section \<open>Python strings\<close>

text \<open>
  A Python \<open>str\<close> is modelled as a \<^typ>\<open>string\<close>: a list of characters with code points
  0 to 255. The character classes below are Python's on that range.
\<close>

definition isspace :: "char \<Rightarrow> bool" where
  \<comment> \<open>\<open>str.isspace\<close> on one character: the characters \<open>str.strip()\<close> removes.\<close>
  "isspace c = (c \<in> set [CHR 0x09, CHR 0x0A, CHR 0x0B, CHR 0x0C, CHR 0x0D,
                          CHR 0x1C, CHR 0x1D, CHR 0x1E, CHR 0x1F, CHR 0x20, CHR 0x85, CHR 0xA0])"

definition strip :: "string \<Rightarrow> string" where
  \<comment> \<open>\<open>s.strip()\<close>\<close>
  "strip s = rev (dropWhile isspace (rev (dropWhile isspace s)))"

definition lower_char :: "char \<Rightarrow> char" where
  "lower_char c =
     (if (CHR ''A'' \<le> c \<and> c \<le> CHR ''Z'') \<or> (CHR 0xC0 \<le> c \<and> c \<le> CHR 0xDE \<and> c \<noteq> CHR 0xD7)
      then char_of (of_char c + (32::nat)) else c)"

definition lower :: "string \<Rightarrow> string" where
  \<comment> \<open>\<open>s.lower()\<close>\<close>
  "lower s = map lower_char s"

fun startswith :: "string \<Rightarrow> string \<Rightarrow> bool" where
  \<comment> \<open>\<open>s.startswith(p)\<close>\<close>
  "startswith s [] = True"
| "startswith [] (p # ps) = False"
| "startswith (c # cs) (p # ps) = (c = p \<and> startswith cs ps)"

fun contains :: "string \<Rightarrow> string \<Rightarrow> bool" where
  \<comment> \<open>\<open>sub in s\<close>, written \<open>contains s sub\<close>\<close>
  "contains [] sub = (sub = [])"
| "contains (c # cs) sub = (startswith (c # cs) sub \<or> contains cs sub)"

fun split_acc :: "char \<Rightarrow> string \<Rightarrow> string \<Rightarrow> string list" where
  "split_acc sep acc [] = [rev acc]"
| "split_acc sep acc (c # cs) =
     (if c = sep then rev acc # split_acc sep [] cs else split_acc sep (c # acc) cs)"

definition split :: "string \<Rightarrow> char \<Rightarrow> string list" where
  \<comment> \<open>\<open>s.split(sep)\<close> for a separator of one character\<close>
  "split s sep = split_acc sep [] s"


section \<open>Model responses\<close>

text \<open>
  A value handed to the extraction functions is a \<open>str\<close>, an object with a \<open>text\<close>
  attribute, or any other object. The last two are carried by the text the functions read
  from them: \<open>result.text\<close>, resp. \<open>str(result)\<close>.
\<close>

datatype model_response = PyStr string | WithText string | Other string

fun response_text :: "model_response \<Rightarrow> string" where
  \<comment> \<open>\<open>if hasattr(result, "text"): result = result.text\<close>, then
      \<open>if not isinstance(result, str): result = str(result)\<close>\<close>
  "response_text (PyStr s) = s"
| "response_text (WithText t) = t"
| "response_text (Other r) = r"


section \<open>code_extractor\<close>

text \<open>
  The pattern is \<^verbatim>\<open>```(?:[a-zA-Z]+)?\n(.*?)\n```\<close> with \<open>re.DOTALL\<close>, and \<open>search\<close>
  returns the leftmost match. At a given start the optional language tag is greedy, and
  giving letters back never helps (the next character would be a letter, not the newline),
  so the tag is the whole run of letters. The lazy group then ends at the first closing
  fence \<^verbatim>\<open>\n```\<close>.
\<close>

definition is_ascii_letter :: "char \<Rightarrow> bool" where
  "is_ascii_letter c = ((CHR ''a'' \<le> c \<and> c \<le> CHR ''z'') \<or> (CHR ''A'' \<le> c \<and> c \<le> CHR ''Z''))"

fun until_close :: "string \<Rightarrow> string option" where
  \<comment> \<open>\<^verbatim>\<open>(.*?)\n```\<close>: the text before the first closing fence\<close>
  "until_close [] = None"
| "until_close (c # cs) =
     (if startswith (c # cs) [CHR 0x0A, CHR 0x60, CHR 0x60, CHR 0x60] then Some []
      else map_option ((#) c) (until_close cs))"

definition fence_at :: "string \<Rightarrow> string option" where
  \<comment> \<open>a match of the pattern starting at the head of the text: group 1\<close>
  "fence_at s =
     (if startswith s [CHR 0x60, CHR 0x60, CHR 0x60] then
        (case dropWhile is_ascii_letter (drop 3 s) of
           [] \<Rightarrow> None
         | c # body \<Rightarrow> if c = CHR 0x0A then until_close body else None)
      else None)"

fun fence_search :: "string \<Rightarrow> string option" where
  \<comment> \<open>\<open>pattern.search(result)\<close>: group 1 of the leftmost match\<close>
  "fence_search [] = None"
| "fence_search (c # cs) =
     (case fence_at (c # cs) of Some code \<Rightarrow> Some code | None \<Rightarrow> fence_search cs)"

definition code_extractor :: "model_response \<Rightarrow> string" where
  "code_extractor result =
     (let text = response_text result in
      case fence_search text of
        Some code \<Rightarrow> strip code
      | None \<Rightarrow> strip text)"


section \<open>Python values and exceptions\<close>

text \<open>
  The values a decoded test report is made of. A dictionary is an association list in
  insertion order (its keys are strings here: they come from JSON objects and from table
  headers). Floating-point arithmetic is not modelled: a float is carried by its
  \<open>repr\<close> text.
\<close>

datatype pyval =
    PNone
  | PBool bool
  | PInt int
  | PFloat string
  | PStr string
  | PList "pyval list"
  | PDict "(string \<times> pyval) list"

text \<open>
  The exceptions of the modelled code, each with its message where one is read. A raise
  is the \<open>Inl\<close> of a sum type. \<open>OtherException\<close> stands for any exception that is not
  one of the others (the model client's errors, for instance).
\<close>

datatype py_exn =
    JSONDecodeError
  | AttributeError string
  | TypeError string
  | KeyError string
  | OtherException string

fun dict_set :: "(string \<times> pyval) list \<Rightarrow> string \<Rightarrow> pyval \<Rightarrow> (string \<times> pyval) list" where
  \<comment> \<open>\<open>d[k] = v\<close>: an existing key keeps its place, a new one goes last\<close>
  "dict_set [] k v = [(k, v)]"
| "dict_set ((k', v') # d) k v =
     (if k' = k then (k, v) # d else (k', v') # dict_set d k v)"

fun is_dict :: "pyval \<Rightarrow> bool" where
  \<comment> \<open>\<open>isinstance(x, dict)\<close>\<close>
  "is_dict (PDict d) = True"
| "is_dict _ = False"


section \<open>extract_test_results\<close>

text \<open>
  \<open>dict_pattern\<close> is \<^verbatim>\<open>\{[\s\S]*\}\<close>; \<open>search\<close> returns the leftmost match and the star is
  greedy, so the match runs from the first opening brace to the last closing brace after
  it. When no closing brace follows the first opening brace, none follows a later one.
\<close>

definition brace_span :: "string \<Rightarrow> string option" where
  \<comment> \<open>\<open>dict_pattern.search(test_output)\<close>: \<open>group(0)\<close> of the match, if any\<close>
  "brace_span s =
     (case dropWhile (\<lambda>c. c \<noteq> CHR ''{'') s of
        [] \<Rightarrow> None
      | b # rest \<Rightarrow>
          (case dropWhile (\<lambda>c. c \<noteq> CHR ''}'') (rev rest) of
             [] \<Rightarrow> None
           | e # ts \<Rightarrow> Some (b # rev (e # ts))))"

text \<open>
  The rows are \<^verbatim>\<open>re.findall(r"^\|(.*)\|$", test_output, re.MULTILINE)\<close>. The dot does not
  match a newline and the anchors match at the line breaks, so a match is a whole line
  that starts and ends with a pipe (two distinct ones); \<open>findall\<close> returns group 1, the
  text between these two pipes.
\<close>

definition table_row :: "string \<Rightarrow> string option" where
  "table_row l =
     (case l of
        [] \<Rightarrow> None
      | c # cs \<Rightarrow> if c = CHR ''|'' \<and> cs \<noteq> [] \<and> last cs = CHR ''|'' then Some (butlast cs) else None)"

definition table_rows :: "string \<Rightarrow> string list" where
  "table_rows text = List.map_filter table_row (split text (CHR 0x0A))"

definition row_cells :: "string \<Rightarrow> string list" where
  \<comment> \<open>\<open>[h.strip() for h in row.split("|")]\<close>\<close>
  "row_cells row = map strip (split row (CHR ''|''))"

definition zip_row :: "string list \<Rightarrow> string list \<Rightarrow> (string \<times> pyval) list" where
  \<comment> \<open>\<open>{headers[j]: values[j] for j in range(len(headers)) if j < len(values)}\<close>\<close>
  "zip_row headers values = foldl (\<lambda>d (h, v). dict_set d h (PStr v)) [] (zip headers values)"

definition markdown_table :: "string \<Rightarrow> pyval option" where
  "markdown_table text =
     (let rows = table_rows text in
      if rows \<noteq> [] \<and> length rows \<ge> 3 then
        let headers = row_cells (hd rows);
            test_cases = map (\<lambda>row. PDict (zip_row headers (row_cells row))) (drop 2 rows)
        in Some (PDict [(''test_cases'', PList test_cases)])
      else None)"

text \<open>
  The body of the \<open>try\<close>: it returns a record (\<open>Inr (Some r)\<close>), falls through to the
  statements after the \<open>try\<close> (\<open>Inr None\<close>), or raises. \<open>json.loads\<close> is the standard
  library's decoder, a parameter of the embedding: it returns a value or raises.
\<close>

definition extract_body :: "(string \<Rightarrow> py_exn + pyval) \<Rightarrow> string \<Rightarrow> py_exn + pyval option" where
  "extract_body loads text =
     (case brace_span text of
        Some span \<Rightarrow>
          (case loads span of
             Inr result \<Rightarrow> Inr (Some result)
           | Inl JSONDecodeError \<Rightarrow> Inr (markdown_table text)
           | Inl e \<Rightarrow> Inl e)
      | None \<Rightarrow> Inr (markdown_table text))"

definition raw_output :: "string \<Rightarrow> pyval" where
  "raw_output text = PDict [(''raw_output'', PStr text)]"

definition extract_test_results ::
  "(string \<Rightarrow> py_exn + pyval) \<Rightarrow> model_response \<Rightarrow> py_exn + pyval" where
  \<comment> \<open>\<open>Inr\<close>: the value returned; \<open>Inl\<close>: an exception leaving the function\<close>
  "extract_test_results loads test_output =
     (let text = response_text test_output in
      case extract_body loads text of
        Inr (Some result) \<Rightarrow> Inr result
      | Inr None \<Rightarrow> Inr (raw_output text)
      | Inl e \<Rightarrow> Inr (raw_output text))"


text \<open>
  Writing a table: \<open>join sep cells\<close> is \<open>sep.join(cells)\<close>, and \<open>pipe_line cells\<close> is the
  line \<^verbatim>\<open>|c1|c2|...|cn|\<close> of a markdown table. They state what the parser reads back.
\<close>

fun join :: "char \<Rightarrow> string list \<Rightarrow> string" where
  "join sep [] = []"
| "join sep [c] = c"
| "join sep (c # d # cs) = c @ sep # join sep (d # cs)"

definition pipe_line :: "string list \<Rightarrow> string" where
  "pipe_line cells = CHR ''|'' # join (CHR ''|'') cells @ [CHR ''|'']"


section \<open>str() of a value\<close>

text \<open>
  \<open>repr\<close> of a \<open>str\<close>: single quotes, unless the string has a single quote and no double
  quote; the quote and the backslash are escaped, tab, newline and carriage return are
  written \<^verbatim>\<open>\t\<close>, \<^verbatim>\<open>\n\<close>, \<^verbatim>\<open>\r\<close>, and any other non-printable character as \<^verbatim>\<open>\xhh\<close>.
\<close>

definition isprintable :: "char \<Rightarrow> bool" where
  "isprintable c =
     ((CHR 0x20 \<le> c \<and> c \<le> CHR 0x7E) \<or> (CHR 0xA1 \<le> c \<and> c \<noteq> CHR 0xAD))"

definition hex_digit :: "nat \<Rightarrow> char" where
  "hex_digit n = ''0123456789abcdef'' ! (n mod 16)"

definition repr_char :: "char \<Rightarrow> char \<Rightarrow> string" where
  "repr_char quote c =
     (if c = quote \<or> c = CHR 0x5C then [CHR 0x5C, c]
      else if c = CHR 0x09 then [CHR 0x5C, CHR ''t'']
      else if c = CHR 0x0A then [CHR 0x5C, CHR ''n'']
      else if c = CHR 0x0D then [CHR 0x5C, CHR ''r'']
      else if \<not> isprintable c then
        [CHR 0x5C, CHR ''x'', hex_digit (of_char c div 16), hex_digit (of_char c mod 16)]
      else [c])"

definition str_repr :: "string \<Rightarrow> string" where
  "str_repr s =
     (let quote = (if CHR 0x27 \<in> set s \<and> CHR 0x22 \<notin> set s then CHR 0x22 else CHR 0x27)
      in quote # concat (map (repr_char quote) s) @ [quote])"

fun nat_repr :: "nat \<Rightarrow> string" where
  "nat_repr n =
     (if n < 10 then [hex_digit n] else nat_repr (n div 10) @ [hex_digit (n mod 10)])"

definition int_repr :: "int \<Rightarrow> string" where
  "int_repr i = (if i < 0 then CHR ''-'' # nat_repr (nat (- i)) else nat_repr (nat i))"

fun comma_join :: "string list \<Rightarrow> string" where
  \<comment> \<open>\<open>", ".join(parts)\<close>\<close>
  "comma_join [] = []"
| "comma_join [p] = p"
| "comma_join (p # q # ps) = p @ '', '' @ comma_join (q # ps)"

fun py_repr :: "pyval \<Rightarrow> string" where
  "py_repr PNone = ''None''"
| "py_repr (PBool b) = (if b then ''True'' else ''False'')"
| "py_repr (PInt i) = int_repr i"
| "py_repr (PFloat r) = r"
| "py_repr (PStr s) = str_repr s"
| "py_repr (PList xs) = ''['' @ comma_join (map py_repr xs) @ '']''"
| "py_repr (PDict d) =
     ''{'' @ comma_join (map (\<lambda>kv. str_repr (fst kv) @ '': '' @ py_repr (snd kv)) d) @ ''}''"

fun py_str :: "pyval \<Rightarrow> string" where
  \<comment> \<open>\<open>str(x)\<close>: a string is itself, any other value is its \<open>repr\<close>\<close>
  "py_str (PStr s) = s"
| "py_str v = py_repr v"


section \<open>has_failed_tests\<close>

fun type_name :: "pyval \<Rightarrow> string" where
  "type_name PNone = ''NoneType''"
| "type_name (PBool b) = ''bool''"
| "type_name (PInt i) = ''int''"
| "type_name (PFloat r) = ''float''"
| "type_name (PStr s) = ''str''"
| "type_name (PList xs) = ''list''"
| "type_name (PDict d) = ''dict''"

definition quoted :: "string \<Rightarrow> string" where
  "quoted s = CHR 0x27 # s @ [CHR 0x27]"

definition no_lower :: "pyval \<Rightarrow> py_exn" where
  \<comment> \<open>what \<open>x.lower()\<close> raises when \<open>x\<close> is not a \<open>str\<close>\<close>
  "no_lower x = AttributeError (quoted (type_name x) @ '' object has no attribute '' @ quoted ''lower'')"

fun py_iter :: "pyval \<Rightarrow> py_exn + pyval list" where
  \<comment> \<open>the items of \<open>for x in v\<close>: a dictionary yields its keys, a string its characters\<close>
  "py_iter (PList xs) = Inr xs"
| "py_iter (PDict d) = Inr (map (\<lambda>kv. PStr (fst kv)) d)"
| "py_iter (PStr s) = Inr (map (\<lambda>c. PStr [c]) s)"
| "py_iter v = Inl (TypeError (quoted (type_name v) @ '' object is not iterable''))"

fun py_getitem :: "pyval \<Rightarrow> string \<Rightarrow> py_exn + pyval" where
  \<comment> \<open>\<open>v[k]\<close> for a string \<open>k\<close>\<close>
  "py_getitem (PDict d) k =
     (case map_of d k of Some v \<Rightarrow> Inr v | None \<Rightarrow> Inl (KeyError (str_repr k)))"
| "py_getitem (PList xs) k = Inl (TypeError ''list indices must be integers or slices, not str'')"
| "py_getitem (PStr s) k = Inl (TypeError ''string indices must be integers'')"
| "py_getitem v k = Inl (TypeError (quoted (type_name v) @ '' object is not subscriptable''))"

definition is_failure_text :: "string \<Rightarrow> bool" where
  \<comment> \<open>\<open>"fail" in s or "error" in s\<close>\<close>
  "is_failure_text s = (contains s ''fail'' \<or> contains s ''error'')"

definition is_status_key :: "string \<Rightarrow> bool" where
  \<comment> \<open>\<open>"status" in k.lower() or "pass" in k.lower()\<close>\<close>
  "is_status_key k = (contains (lower k) ''status'' \<or> contains (lower k) ''pass'')"

fun find_status_key :: "pyval list \<Rightarrow> py_exn + string option" where
  \<comment> \<open>\<open>next((k for k in test if ...), None)\<close> over the items of \<open>test\<close>\<close>
  "find_status_key [] = Inr None"
| "find_status_key (PStr k # ks) =
     (if is_status_key k then Inr (Some k) else find_status_key ks)"
| "find_status_key (x # ks) = Inl (no_lower x)"

definition check_case :: "pyval \<Rightarrow> py_exn + bool" where
  \<comment> \<open>one pass of the loop body: \<open>Inr True\<close> when it returns \<open>True\<close>\<close>
  "check_case test =
     (case py_iter test of
        Inl e \<Rightarrow> Inl e
      | Inr ks \<Rightarrow>
          (case find_status_key ks of
             Inl e \<Rightarrow> Inl e
           | Inr None \<Rightarrow> Inr False
           | Inr (Some status_key) \<Rightarrow>
               if status_key = [] then Inr False
               else (case py_getitem test status_key of
                       Inl e \<Rightarrow> Inl e
                     | Inr (PStr v) \<Rightarrow> Inr (is_failure_text (lower v))
                     | Inr x \<Rightarrow> Inl (no_lower x))))"

fun check_cases :: "pyval list \<Rightarrow> py_exn + bool" where
  \<comment> \<open>\<open>for test in ...\<close>: \<open>Inr False\<close> when the loop ends without returning\<close>
  "check_cases [] = Inr False"
| "check_cases (test # tests) =
     (case check_case test of
        Inl e \<Rightarrow> Inl e
      | Inr True \<Rightarrow> Inr True
      | Inr False \<Rightarrow> check_cases tests)"

definition has_failed_tests :: "pyval \<Rightarrow> py_exn + bool" where
  "has_failed_tests test_results =
     (let test_results_str = lower (py_str test_results) in
      if contains test_results_str ''fail'' \<or> contains test_results_str ''error'' then
        (case test_results of
           PDict d \<Rightarrow>
             (case map_of d ''test_cases'' of
                Some cases \<Rightarrow>
                  (case py_iter cases of
                     Inl e \<Rightarrow> Inl e
                   | Inr tests \<Rightarrow> check_cases tests)
              | None \<Rightarrow>
                  if ''raw_output'' \<in> fst ` set d then Inr True else Inr False)
         | _ \<Rightarrow> Inr True)
      else Inr False)"


text \<open>
  Predicates on one case of a \<open>test_cases\<close> list, for stating what \<open>has_failed_tests\<close>
  computes. \<open>status_entry\<close> is the first entry whose key contains "status" or "pass";
  \<open>case_fails\<close>: that entry holds a string containing "fail" or "error";
  \<open>raising_case\<close>: the loop body raises on this case; \<open>case_ok\<close>: the case is a mapping
  whose status/pass-keyed values are all strings; \<open>any_status_key_fails\<close>: some entry with
  such a key, not necessarily the first, holds a failing string.
\<close>

fun is_str :: "pyval \<Rightarrow> bool" where
  "is_str (PStr s) = True"
| "is_str _ = False"

definition status_entry :: "(string \<times> pyval) list \<Rightarrow> (string \<times> pyval) option" where
  "status_entry d = find (\<lambda>kv. is_status_key (fst kv)) d"

fun failing_value :: "pyval \<Rightarrow> bool" where
  "failing_value (PStr v) = is_failure_text (lower v)"
| "failing_value _ = False"

fun case_fails :: "pyval \<Rightarrow> bool" where
  "case_fails (PDict d) =
     (case status_entry d of Some kv \<Rightarrow> failing_value (snd kv) | None \<Rightarrow> False)"
| "case_fails _ = False"

fun raising_item :: "pyval \<Rightarrow> bool" where
  "raising_item (PStr k) = is_status_key k"
| "raising_item _ = True"

fun raising_case :: "pyval \<Rightarrow> bool" where
  "raising_case (PDict d) =
     (case status_entry d of Some kv \<Rightarrow> \<not> is_str (snd kv) | None \<Rightarrow> False)"
| "raising_case (PStr s) = False"
| "raising_case (PList xs) = list_ex raising_item xs"
| "raising_case _ = True"

fun case_ok :: "pyval \<Rightarrow> bool" where
  "case_ok (PDict d) = list_all (\<lambda>kv. is_status_key (fst kv) \<longrightarrow> is_str (snd kv)) d"
| "case_ok _ = False"

fun any_status_key_fails :: "pyval \<Rightarrow> bool" where
  "any_status_key_fails (PDict d) =
     list_ex (\<lambda>kv. is_status_key (fst kv) \<and> failing_value (snd kv)) d"
| "any_status_key_fails _ = False"


section \<open>A JSON decoder\<close>

text \<open>
  A model of the standard library's \<open>json.loads\<close> on 8-bit text, to run the extraction on
  concrete responses. It follows the library's scanner: \<open>scan_once\<close> reads one value and
  returns it with the rest of the text, \<open>object_pairs\<close> reads the members of an object from
  just after the opening quote of a key, \<open>array_items\<close> the items of an array. A literal
  with a fraction or an exponent is handed to \<open>parse_float\<close> (the library's hook of that
  name), which gives the float. An escape \<^verbatim>\<open>\uXXXX\<close> above U+00FF names a character that
  8-bit text does not have; the model stops there with an exception of its own. The tests
  \<open>length \<dots> < length s\<close> make the recursion end; they always succeed, as is proved
  below (the text left after a value is shorter).
\<close>

definition is_json_ws :: "char \<Rightarrow> bool" where
  "is_json_ws c = (c \<in> set [CHR 0x20, CHR 0x09, CHR 0x0A, CHR 0x0D])"

definition skip_ws :: "string \<Rightarrow> string" where
  "skip_ws s = dropWhile is_json_ws s"

definition is_digit :: "char \<Rightarrow> bool" where
  "is_digit c = (CHR ''0'' \<le> c \<and> c \<le> CHR ''9'')"

definition hex_value :: "char \<Rightarrow> nat option" where
  "hex_value c =
     (if is_digit c then Some (of_char c - 48)
      else if CHR ''a'' \<le> c \<and> c \<le> CHR ''f'' then Some (of_char c - 87)
      else if CHR ''A'' \<le> c \<and> c \<le> CHR ''F'' then Some (of_char c - 55)
      else None)"

definition hex4 :: "char \<Rightarrow> char \<Rightarrow> char \<Rightarrow> char \<Rightarrow> nat option" where
  "hex4 a b c d =
     (case (hex_value a, hex_value b, hex_value c, hex_value d) of
        (Some w, Some x, Some y, Some z) \<Rightarrow> Some (((w * 16 + x) * 16 + y) * 16 + z)
      | _ \<Rightarrow> None)"

definition unescape :: "char \<Rightarrow> char option" where
  "unescape e =
     map_of [(CHR 0x22, CHR 0x22), (CHR 0x5C, CHR 0x5C), (CHR ''/'', CHR ''/''),
             (CHR ''b'', CHR 0x08), (CHR ''f'', CHR 0x0C), (CHR ''n'', CHR 0x0A),
             (CHR ''r'', CHR 0x0D), (CHR ''t'', CHR 0x09)] e"

definition push :: "char \<Rightarrow> py_exn + (string \<times> string) \<Rightarrow> py_exn + (string \<times> string)" where
  "push c r = (case r of Inl e \<Rightarrow> Inl e | Inr (str, rest) \<Rightarrow> Inr (c # str, rest))"

fun scanstring :: "string \<Rightarrow> py_exn + (string \<times> string)" where
  "scanstring [] = Inl JSONDecodeError"
| "scanstring (c # cs) =
     (if c = CHR 0x22 then Inr ([], cs)
      else if c = CHR 0x5C then
        (case cs of
           [] \<Rightarrow> Inl JSONDecodeError
         | e # cs' \<Rightarrow>
             if e = CHR ''u'' then
               (case cs' of
                  h1 # h2 # h3 # h4 # rest \<Rightarrow>
                    (case hex4 h1 h2 h3 h4 of
                       None \<Rightarrow> Inl JSONDecodeError
                     | Some n \<Rightarrow>
                         if n < 256 then push (char_of n) (scanstring rest)
                         else Inl (OtherException ''code point above U+00FF''))
                | _ \<Rightarrow> Inl JSONDecodeError)
             else
               (case unescape e of
                  None \<Rightarrow> Inl JSONDecodeError
                | Some ch \<Rightarrow> push ch (scanstring cs')))
      else if c < CHR 0x20 then Inl JSONDecodeError
      else push c (scanstring cs))"

definition digits_value :: "string \<Rightarrow> nat" where
  "digits_value ds = foldl (\<lambda>n c. 10 * n + (of_char c - 48)) 0 ds"

definition scan_fraction :: "string \<Rightarrow> string \<times> string" where
  \<comment> \<open>\<^verbatim>\<open>(\.\d+)?\<close>\<close>
  "scan_fraction s =
     (case s of
        c # d # r \<Rightarrow>
          if c = CHR ''.'' \<and> is_digit d
          then (c # takeWhile is_digit (d # r), dropWhile is_digit (d # r))
          else ([], s)
      | _ \<Rightarrow> ([], s))"

definition scan_exponent :: "string \<Rightarrow> string \<times> string" where
  \<comment> \<open>\<^verbatim>\<open>([eE][-+]?\d+)?\<close>\<close>
  "scan_exponent s =
     (case s of
        [] \<Rightarrow> ([], s)
      | e # r \<Rightarrow>
          if e = CHR ''e'' \<or> e = CHR ''E'' then
            (case r of
               [] \<Rightarrow> ([], s)
             | g # r' \<Rightarrow>
                 if is_digit g then (e # takeWhile is_digit r, dropWhile is_digit r)
                 else if (g = CHR ''+'' \<or> g = CHR ''-'') \<and> r' \<noteq> [] \<and> is_digit (hd r')
                 then (e # g # takeWhile is_digit r', dropWhile is_digit r')
                 else ([], s))
          else ([], s))"

definition scan_integer :: "string \<Rightarrow> (string \<times> string) option" where
  \<comment> \<open>\<^verbatim>\<open>(0|[1-9]\d*)\<close>\<close>
  "scan_integer s =
     (case s of
        [] \<Rightarrow> None
      | d # r \<Rightarrow>
          if d = CHR ''0'' then Some ([d], r)
          else if is_digit d then Some (takeWhile is_digit s, dropWhile is_digit s)
          else None)"

definition scan_number :: "(string \<Rightarrow> string) \<Rightarrow> string \<Rightarrow> (pyval \<times> string) option" where
  "scan_number parse_float s =
     (let sign = (if s \<noteq> [] \<and> hd s = CHR ''-'' then ''-'' else [])
      in case scan_integer (drop (length sign) s) of
           None \<Rightarrow> None
         | Some (integer, r1) \<Rightarrow>
             (case scan_fraction r1 of (frac, r2) \<Rightarrow>
               (case scan_exponent r2 of (exp, r3) \<Rightarrow>
                  if frac = [] \<and> exp = [] then
                    Some (PInt ((if sign = [] then 1 else - 1) * int (digits_value integer)), r3)
                  else Some (PFloat (parse_float (sign @ integer @ frac @ exp)), r3))))"

definition dict_of_pairs :: "(string \<times> pyval) list \<Rightarrow> (string \<times> pyval) list" where
  \<comment> \<open>\<open>dict(pairs)\<close>\<close>
  "dict_of_pairs pairs = foldl (\<lambda>d kv. dict_set d (fst kv) (snd kv)) [] pairs"

function scan_once :: "(string \<Rightarrow> string) \<Rightarrow> string \<Rightarrow> py_exn + (pyval \<times> string)"
  and object_pairs :: "(string \<Rightarrow> string) \<Rightarrow> string \<Rightarrow> py_exn + ((string \<times> pyval) list \<times> string)"
  and array_items :: "(string \<Rightarrow> string) \<Rightarrow> string \<Rightarrow> py_exn + (pyval list \<times> string)"
where
  "scan_once pf s =
     (case s of
        [] \<Rightarrow> Inl JSONDecodeError
      | c # cs \<Rightarrow>
          if c = CHR 0x22 then
            (case scanstring cs of Inl e \<Rightarrow> Inl e | Inr (str, rest) \<Rightarrow> Inr (PStr str, rest))
          else if c = CHR ''{'' then
            (case skip_ws cs of
               [] \<Rightarrow> Inl JSONDecodeError
             | c' # cs' \<Rightarrow>
                 if c' = CHR ''}'' then Inr (PDict [], cs')
                 else if c' = CHR 0x22 then
                   (case object_pairs pf cs' of
                      Inl e \<Rightarrow> Inl e
                    | Inr (pairs, rest) \<Rightarrow> Inr (PDict (dict_of_pairs pairs), rest))
                 else Inl JSONDecodeError)
          else if c = CHR ''['' then
            (case skip_ws cs of
               [] \<Rightarrow> Inl JSONDecodeError
             | c' # cs' \<Rightarrow>
                 if c' = CHR '']'' then Inr (PList [], cs')
                 else
                   (case array_items pf (c' # cs') of
                      Inl e \<Rightarrow> Inl e
                    | Inr (items, rest) \<Rightarrow> Inr (PList items, rest)))
          else if startswith s ''null'' then Inr (PNone, drop 4 s)
          else if startswith s ''true'' then Inr (PBool True, drop 4 s)
          else if startswith s ''false'' then Inr (PBool False, drop 5 s)
          else
            (case scan_number pf s of
               Some r \<Rightarrow> Inr r
             | None \<Rightarrow>
                 if startswith s ''NaN'' then Inr (PFloat ''nan'', drop 3 s)
                 else if startswith s ''Infinity'' then Inr (PFloat ''inf'', drop 8 s)
                 else if startswith s ''-Infinity'' then Inr (PFloat ''-inf'', drop 9 s)
                 else Inl JSONDecodeError))"
| "object_pairs pf s =
     (case scanstring s of
        Inl e \<Rightarrow> Inl e
      | Inr (key, r1) \<Rightarrow>
          (case skip_ws r1 of
             [] \<Rightarrow> Inl JSONDecodeError
           | c # r2 \<Rightarrow>
               if c \<noteq> CHR '':'' then Inl JSONDecodeError
               else if \<not> length (skip_ws r2) < length s then Inl JSONDecodeError
               else
                 (case scan_once pf (skip_ws r2) of
                    Inl e \<Rightarrow> Inl e
                  | Inr (v, r3) \<Rightarrow>
                      (case skip_ws r3 of
                         [] \<Rightarrow> Inl JSONDecodeError
                       | c' # r4 \<Rightarrow>
                           if c' = CHR ''}'' then Inr ([(key, v)], r4)
                           else if c' = CHR '','' then
                             (case skip_ws r4 of
                                [] \<Rightarrow> Inl JSONDecodeError
                              | q # r5 \<Rightarrow>
                                  if q \<noteq> CHR 0x22 then Inl JSONDecodeError
                                  else if \<not> length r5 < length s then Inl JSONDecodeError
                                  else
                                    (case object_pairs pf r5 of
                                       Inl e \<Rightarrow> Inl e
                                     | Inr (pairs, rest) \<Rightarrow> Inr ((key, v) # pairs, rest)))
                           else Inl JSONDecodeError))))"
| "array_items pf s =
     (case scan_once pf s of
        Inl e \<Rightarrow> Inl e
      | Inr (v, r1) \<Rightarrow>
          (case skip_ws r1 of
             [] \<Rightarrow> Inl JSONDecodeError
           | c # r2 \<Rightarrow>
               if c = CHR '']'' then Inr ([v], r2)
               else if c = CHR '','' then
                 (if \<not> length (skip_ws r2) < length s then Inl JSONDecodeError
                  else
                    (case array_items pf (skip_ws r2) of
                       Inl e \<Rightarrow> Inl e
                     | Inr (items, rest) \<Rightarrow> Inr (v # items, rest)))
               else Inl JSONDecodeError))"
  by pat_completeness auto
termination
proof (relation "measure (\<lambda>x. case x of
          Inl (pf, s) \<Rightarrow> 2 * length s
        | Inr (Inl (pf, s)) \<Rightarrow> 2 * length s + 1
        | Inr (Inr (pf, s)) \<Rightarrow> 2 * length s + 1)", goal_cases)
  case 1
  then show ?case by simp
next
  case (2 pf s c cs c' cs')
  then have "length (c' # cs') \<le> length cs"
    by (metis skip_ws_def length_dropWhile_le)
  then show ?case using 2 by simp
next
  case (3 pf s c cs c' cs')
  then have "length (c' # cs') \<le> length cs"
    by (metis skip_ws_def length_dropWhile_le)
  then show ?case using 3 by simp
qed simp_all

declare scan_once.simps [simp del] object_pairs.simps [simp del] array_items.simps [simp del]

definition json_loads :: "(string \<Rightarrow> string) \<Rightarrow> string \<Rightarrow> py_exn + pyval" where
  "json_loads parse_float s =
     (case scan_once parse_float (skip_ws s) of
        Inl e \<Rightarrow> Inl e
      | Inr (obj, rest) \<Rightarrow> if skip_ws rest = [] then Inr obj else Inl JSONDecodeError)"


section \<open>The test-and-repair loop\<close>

text \<open>
  The wording of the prompts is configuration: \<open>test_prompt\<close> is the fixed instruction of
  \<open>test_case_gen_checker\<close>, and the four \<open>fix\<close> fields are the pieces of the f-string of
  \<open>analyze_and_fix_code\<close> around its three holes (code, test results, problem statement).
\<close>

record prompt_texts =
  test_prompt :: string
  fix_intro :: string
  fix_results :: string
  fix_problem :: string
  fix_request :: string

text \<open>
  The model client: \<open>model.respond(prompt)\<close> returns a response or raises, and the client
  may change state in either case.
\<close>

type_synonym 'm client = "'m \<Rightarrow> string \<Rightarrow> (py_exn + model_response) \<times> 'm"

fun exn_message :: "py_exn \<Rightarrow> string" where
  \<comment> \<open>\<open>str(e)\<close>; a \<open>JSONDecodeError\<close> never reaches the place where the message is read\<close>
  "exn_message JSONDecodeError = []"
| "exn_message (AttributeError m) = m"
| "exn_message (TypeError m) = m"
| "exn_message (KeyError m) = m"
| "exn_message (OtherException m) = m"

fun py_setitem :: "pyval \<Rightarrow> string \<Rightarrow> pyval \<Rightarrow> py_exn + pyval" where
  \<comment> \<open>\<open>x[k] = v\<close> for a string \<open>k\<close>: the updated \<open>x\<close>, or the exception\<close>
  "py_setitem (PDict d) k v = Inr (PDict (dict_set d k v))"
| "py_setitem (PList xs) k v = Inl (TypeError ''list indices must be integers or slices, not str'')"
| "py_setitem x k v =
     Inl (TypeError (quoted (type_name x) @ '' object does not support item assignment''))"

definition analyze_and_fix_code ::
  "prompt_texts \<Rightarrow> 'm client \<Rightarrow> 'm \<Rightarrow> string \<Rightarrow> pyval \<Rightarrow> string \<Rightarrow> (py_exn + string) \<times> 'm" where
  "analyze_and_fix_code texts respond model code test_results user_prompt =
     (let test_results =
            (if \<not> is_dict test_results then PDict [(''raw_output'', PStr (py_str test_results))]
             else test_results);
          fix_prompt = fix_intro texts @ code @ fix_results texts @ py_str test_results
                       @ fix_problem texts @ user_prompt @ fix_request texts
      in case respond model fix_prompt of
           (Inl e, model') \<Rightarrow> (Inl e, model')
         | (Inr fix_result, model') \<Rightarrow>
             (Inr (code_extractor (PyStr (response_text fix_result))), model'))"

text \<open>
  The variables of \<open>test_case_gen_checker\<close> that a cycle reads and writes, with the state
  of the model client. The counter \<open>iteration\<close> is an argument of the loop.
\<close>

record 'm loop_state =
  current_code :: string
  all_tests_pass :: bool
  final_test_results :: pyval
  client_state :: 'm

definition full_prompt :: "prompt_texts \<Rightarrow> string \<Rightarrow> string \<Rightarrow> string" where
  "full_prompt texts prompt code =
     test_prompt texts @ [CHR 0x0A] @ prompt @ [CHR 0x0A] @ code @ [CHR 0x0A]
     @ ''# Generate and evaluate test cases for this code'' @ [CHR 0x0A]"

text \<open>
  The body of the \<open>try\<close> of one cycle: the state when the block ends, with the exception
  if one was raised (the assignments made before the raise are kept).
\<close>

definition try_body ::
  "(string \<Rightarrow> py_exn + pyval) \<Rightarrow> prompt_texts \<Rightarrow> 'm client \<Rightarrow> string \<Rightarrow> 'm loop_state
     \<Rightarrow> py_exn option \<times> 'm loop_state" where
  "try_body loads texts respond prompt st =
     (case respond (client_state st) (full_prompt texts prompt (current_code st)) of
        (Inl e, m) \<Rightarrow> (Some e, st\<lparr>client_state := m\<rparr>)
      | (Inr test_result, m) \<Rightarrow>
          (case extract_test_results loads (PyStr (response_text test_result)) of
             Inl e \<Rightarrow> (Some e, st\<lparr>client_state := m\<rparr>)
           | Inr test_results \<Rightarrow>
               (let st1 = st\<lparr>client_state := m, final_test_results := test_results\<rparr> in
                case has_failed_tests test_results of
                  Inl e \<Rightarrow> (Some e, st1)
                | Inr False \<Rightarrow>
                    (let st2 = st1\<lparr>all_tests_pass := True\<rparr> in
                     case py_setitem (final_test_results st2) ''status'' (PStr ''complete_success'') of
                       Inl e \<Rightarrow> (Some e, st2)
                     | Inr r \<Rightarrow> (None, st2\<lparr>final_test_results := r\<rparr>))
                | Inr True \<Rightarrow>
                    (case analyze_and_fix_code texts respond m (current_code st1) test_results prompt of
                       (Inl e, m') \<Rightarrow> (Some e, st1\<lparr>client_state := m'\<rparr>)
                     | (Inr code, m') \<Rightarrow> (None, st1\<lparr>client_state := m', current_code := code\<rparr>)))))"

text \<open>
  One cycle with its handler: the loop goes on (\<open>Next\<close>), is left by \<open>break\<close>, or an
  exception raised inside the handler leaves the function (\<open>Raise\<close>).
\<close>

datatype 'a flow = Next 'a | Break 'a | Raise py_exn

definition cycle ::
  "(string \<Rightarrow> py_exn + pyval) \<Rightarrow> prompt_texts \<Rightarrow> 'm client \<Rightarrow> string \<Rightarrow> 'm loop_state
     \<Rightarrow> 'm loop_state flow" where
  "cycle loads texts respond prompt st =
     (case try_body loads texts respond prompt st of
        (None, st') \<Rightarrow> Next st'
      | (Some e, st') \<Rightarrow>
          (case py_setitem (final_test_results st') ''status'' (PStr ''error'') of
             Inl e' \<Rightarrow> Raise e'
           | Inr r1 \<Rightarrow>
               (case py_setitem r1 ''error_message'' (PStr (exn_message e)) of
                  Inl e' \<Rightarrow> Raise e'
                | Inr r2 \<Rightarrow> Break (st'\<lparr>final_test_results := r2\<rparr>))))"

function while_loop ::
  "(string \<Rightarrow> py_exn + pyval) \<Rightarrow> prompt_texts \<Rightarrow> 'm client \<Rightarrow> string \<Rightarrow> int \<Rightarrow> int
     \<Rightarrow> 'm loop_state \<Rightarrow> py_exn + (int \<times> 'm loop_state)" where
  "while_loop loads texts respond prompt max_iterations iteration st =
     (if \<not> all_tests_pass st \<and> iteration < max_iterations then
        (case cycle loads texts respond prompt st of
           Next st' \<Rightarrow> while_loop loads texts respond prompt max_iterations (iteration + 1) st'
         | Break st' \<Rightarrow> Inr (iteration + 1, st')
         | Raise e \<Rightarrow> Inl e)
      else Inr (iteration, st))"
  by pat_completeness auto
termination
  by (relation "measure (\<lambda>(loads, texts, respond, prompt, max_iterations, iteration, st).
        nat (max_iterations - iteration))") auto

declare while_loop.simps [simp del]

text \<open>
  \<open>after_loop\<close>: the counter and the variables after the loop and the status assignment
  that follows it; \<open>test_case_gen_checker\<close> then wraps a result that is not a dictionary
  and returns the pair.
\<close>

definition after_loop ::
  "(string \<Rightarrow> py_exn + pyval) \<Rightarrow> prompt_texts \<Rightarrow> 'm client \<Rightarrow> 'm \<Rightarrow> string \<Rightarrow> string \<Rightarrow> int
     \<Rightarrow> py_exn + (int \<times> 'm loop_state)" where
  "after_loop loads texts respond model code prompt max_iterations =
     (case while_loop loads texts respond prompt max_iterations 0
             \<lparr>current_code = code, all_tests_pass = False,
              final_test_results =
                PDict [(''test_cases'', PList []), (''status'', PStr ''incomplete'')],
              client_state = model\<rparr> of
        Inl e \<Rightarrow> Inl e
      | Inr (iteration, st) \<Rightarrow>
          if \<not> all_tests_pass st \<and> iteration \<ge> max_iterations then
            (case py_setitem (final_test_results st) ''status'' (PStr ''max_iterations_reached'') of
               Inl e \<Rightarrow> Inl e
             | Inr r \<Rightarrow> Inr (iteration, st\<lparr>final_test_results := r\<rparr>))
          else Inr (iteration, st))"

definition test_case_gen_checker ::
  "(string \<Rightarrow> py_exn + pyval) \<Rightarrow> prompt_texts \<Rightarrow> 'm client \<Rightarrow> 'm \<Rightarrow> string \<Rightarrow> string \<Rightarrow> int
     \<Rightarrow> py_exn + (string \<times> pyval)" where
  "test_case_gen_checker loads texts respond model code prompt max_iterations =
     (case after_loop loads texts respond model code prompt max_iterations of
        Inl e \<Rightarrow> Inl e
      | Inr (iteration, st) \<Rightarrow>
          Inr (current_code st,
               if \<not> is_dict (final_test_results st)
               then PDict [(''raw_output'', PStr (py_str (final_test_results st)))]
               else final_test_results st))"

text \<open>
  What the claims say of the collaborators. \<open>decodes_objects\<close>: a text that starts with an
  opening brace decodes, if at all, to a dictionary (the JSON grammar). \<open>dq s\<close> is \<open>s\<close>
  in double quotes, for writing JSON text.
\<close>

definition decodes_objects :: "(string \<Rightarrow> py_exn + pyval) \<Rightarrow> bool" where
  "decodes_objects loads = (\<forall>s v. loads (CHR ''{'' # s) = Inr v \<longrightarrow> is_dict v)"

definition dq :: "string \<Rightarrow> string" where
  "dq s = CHR 0x22 # s @ [CHR 0x22]"


text \<open>
  Model clients for running the loop: reports in the format the test prompt asks for,
  a client that always answers with the passing report, a client that reports failure
  and answers a repair request with code, and a client that answers with the failing report
  until it has been called \<open>limit\<close> times and raises from then on. The
  state of a client is the number of calls made. \<open>plain_texts\<close> is a short wording of
  the prompts.
\<close>

definition failing_report :: string where
  "failing_report =
     ''{'' @ dq ''test_cases'' @ '': [{'' @ dq ''status'' @ '': '' @ dq ''FAIL'' @ ''}]}''"

definition passing_report :: string where
  "passing_report =
     ''{'' @ dq ''test_cases'' @ '': [{'' @ dq ''status'' @ '': '' @ dq ''PASS'' @ ''}]}''"

definition multiline_report :: string where
  \<comment> \<open>a failing report written over three lines\<close>
  "multiline_report =
     ''{'' @ dq ''test_cases'' @ '': ['' @ [CHR 0x0A]
     @ ''  {'' @ dq ''status'' @ '': '' @ dq ''FAIL'' @ ''}'' @ [CHR 0x0A] @ '']}''"

definition quota_client :: "nat \<Rightarrow> nat client" where
  "quota_client limit calls prompt =
     (if calls < limit then (Inr (PyStr failing_report), Suc calls)
      else (Inl (OtherException ''quota exceeded''), Suc calls))"

definition passing_client :: "nat client" where
  "passing_client calls prompt = (Inr (WithText passing_report), Suc calls)"

definition repairing_client :: "nat client" where
  \<comment> \<open>a failing report for a test request, a fenced code block for any other request\<close>
  "repairing_client calls prompt =
     (if contains prompt ''# Generate and evaluate test cases for this code''
      then (Inr (PyStr failing_report), Suc calls)
      else (Inr (PyStr ([CHR 0x60, CHR 0x60, CHR 0x60] @ ''python'' @ [CHR 0x0A] @ ''x = 2''
                        @ [CHR 0x0A, CHR 0x60, CHR 0x60, CHR 0x60])), Suc calls))"

definition plain_texts :: prompt_texts where
  "plain_texts =
     \<lparr>test_prompt = ''Generate and evaluate test cases.'',
      fix_intro = ''ORIGINAL CODE: '', fix_results = '' TEST RESULTS: '',
      fix_problem = '' ORIGINAL PROBLEM STATEMENT: '', fix_request = '' Please fix the code.''\<rparr>"

text \<open>
  What the claims say of a client. \<open>always_fails\<close>: every test request (the full prompt
  for some code) is answered with a response whose extracted record has failed tests;
  \<open>always_passes\<close>: every test request is answered with a response whose record has
  none; \<open>always_answers\<close>: no call raises, so that a repair request gets a response, from
  which a code artifact is taken.
\<close>

definition always_fails ::
  "(string \<Rightarrow> py_exn + pyval) \<Rightarrow> prompt_texts \<Rightarrow> string \<Rightarrow> 'm client \<Rightarrow> bool" where
  "always_fails loads texts prompt respond =
     (\<forall>m code. \<exists>resp m' rcd. respond m (full_prompt texts prompt code) = (Inr resp, m')
        \<and> extract_test_results loads (PyStr (response_text resp)) = Inr rcd
        \<and> has_failed_tests rcd = Inr True)"

definition always_passes ::
  "(string \<Rightarrow> py_exn + pyval) \<Rightarrow> prompt_texts \<Rightarrow> string \<Rightarrow> 'm client \<Rightarrow> bool" where
  "always_passes loads texts prompt respond =
     (\<forall>m code. \<exists>resp m' rcd. respond m (full_prompt texts prompt code) = (Inr resp, m')
        \<and> extract_test_results loads (PyStr (response_text resp)) = Inr rcd
        \<and> has_failed_tests rcd = Inr False)"

definition always_answers :: "'m client \<Rightarrow> bool" where
  "always_answers respond = (\<forall>m p. \<exists>resp m'. respond m p = (Inr resp, m'))"

text \<open>
  \<open>counts_calls calls respond\<close>: the number \<open>calls m\<close> read from the state of the client
  goes up by one with every call, whether the call returns or raises. It makes the
  number of requests of a run visible in the final state of the client.
\<close>

definition counts_calls :: "('m \<Rightarrow> nat) \<Rightarrow> 'm client \<Rightarrow> bool" where
  "counts_calls calls respond = (\<forall>m p. calls (snd (respond m p)) = Suc (calls m))"


section \<open>Properties of the string functions\<close>

lemma strip_empty_iff: "strip s = [] \<longleftrightarrow> (\<forall>c \<in> set s. isspace c)"
proof
  assume "strip s = []"
  then have "dropWhile isspace s = []"
    by (metis strip_def dropWhile_eq_Nil_conv dropWhile_idem rev_is_Nil_conv set_rev)
  then show "\<forall>c \<in> set s. isspace c"
    by simp
next
  assume "\<forall>c \<in> set s. isspace c"
  then have "dropWhile isspace s = []"
    by simp
  then show "strip s = []"
    by (simp only: strip_def rev.simps dropWhile.simps)
qed


lemma split_acc_nosep: "sep \<notin> set c \<Longrightarrow> split_acc sep acc c = [rev acc @ c]"
  by (induction c arbitrary: acc) auto

lemma split_acc_sep:
  "sep \<notin> set c \<Longrightarrow> split_acc sep acc (c @ sep # rest) = (rev acc @ c) # split_acc sep [] rest"
  by (induction c arbitrary: acc) auto

lemma split_join:
  "cs \<noteq> [] \<Longrightarrow> \<forall>c \<in> set cs. sep \<notin> set c \<Longrightarrow> split (join sep cs) sep = cs"
proof (induction sep cs rule: join.induct)
  case (1 sep)
  then show ?case by simp
next
  case (2 sep c)
  then show ?case by (simp add: split_def split_acc_nosep)
next
  case (3 sep c d cs)
  then have "split (join sep (d # cs)) sep = d # cs" by simp
  moreover have "sep \<notin> set c" using 3 by simp
  ultimately show ?case
    by (simp add: split_def split_acc_sep)
qed

lemma set_join: "set (join sep cs) \<subseteq> insert sep (\<Union>c \<in> set cs. set c)"
  by (induction sep cs rule: join.induct) auto

lemma table_row_pipe_line: "table_row (pipe_line cells) = Some (join (CHR ''|'') cells)"
  by (simp add: table_row_def pipe_line_def)

lemma brace_span_None: "CHR ''{'' \<notin> set s \<Longrightarrow> brace_span s = None"
proof -
  assume "CHR ''{'' \<notin> set s"
  then have "dropWhile (\<lambda>c. c \<noteq> CHR ''{'') s = []"
    by (induction s) auto
  then show ?thesis
    by (simp only: brace_span_def list.case)
qed

lemma row_cells_join:
  "cs \<noteq> [] \<Longrightarrow> \<forall>c \<in> set cs. CHR ''|'' \<notin> set c \<Longrightarrow> row_cells (join (CHR ''|'') cs) = map strip cs"
  by (simp add: row_cells_def split_join)

lemma table_rows_lines:
  "ls \<noteq> [] \<Longrightarrow> \<forall>l \<in> set ls. CHR 0x0A \<notin> set l \<Longrightarrow>
   table_rows (join (CHR 0x0A) ls) = List.map_filter table_row ls"
  by (simp add: table_rows_def split_join)

lemma set_pipe_line: "x \<in> set (pipe_line cs) \<Longrightarrow> x = CHR ''|'' \<or> (\<exists>c \<in> set cs. x \<in> set c)"
  using set_join [of "CHR ''|''" cs] by (auto simp: pipe_line_def)


section \<open>code_extractor: when the artifact is empty\<close>

text \<open>
  C7, as stated: the artifact is non-empty unless the input was empty. It fails on a
  fenced block without content (the text is not empty, not even after stripping, and
  the artifact is the empty content of the block), and on an input of one blank.
\<close>

theorem code_extractor_blank_counterexample:
  "code_extractor (PyStr ([CHR 0x60, CHR 0x60, CHR 0x60, CHR 0x0A, CHR 0x0A, CHR 0x60, CHR 0x60, CHR 0x60])) = []
   \<and> strip (response_text (PyStr ([CHR 0x60, CHR 0x60, CHR 0x60, CHR 0x0A, CHR 0x0A, CHR 0x60, CHR 0x60, CHR 0x60]))) \<noteq> []
   \<and> code_extractor (PyStr '' '') = [] \<and> response_text (PyStr '' '') \<noteq> []"
  by (simp add: code_extractor_def fence_at_def is_ascii_letter_def isspace_def strip_def)

text \<open>
  C7, amended: the artifact is the stripped content of the first fenced block if there is
  one, and the stripped text otherwise; it is empty exactly when that content, resp. that
  text, consists of whitespace only.
\<close>

theorem code_extractor_empty_iff:
  "code_extractor result =
     (case fence_search (response_text result) of
        Some code \<Rightarrow> strip code | None \<Rightarrow> strip (response_text result))
   \<and> (code_extractor result = [] \<longleftrightarrow>
        (case fence_search (response_text result) of
           Some code \<Rightarrow> \<forall>c \<in> set code. isspace c
         | None \<Rightarrow> \<forall>c \<in> set (response_text result). isspace c))"
  by (simp add: code_extractor_def strip_empty_iff split: option.splits)

theorem code_extractor_empty_iff_witness:
  "fence_search (response_text (PyStr ''x = 1 '')) = None
   \<and> \<not> (\<forall>c \<in> set (response_text (PyStr ''x = 1 '')). isspace c)
   \<and> code_extractor (PyStr ''x = 1 '') = ''x = 1''"
  using code_extractor_empty_iff [of "PyStr ''x = 1 ''"]
  by (simp add: fence_at_def isspace_def strip_def)

section \<open>extract_test_results: the markdown table\<close>

text \<open>
  C2, as stated: the header list built from row 0 has empty strings at position 0 and at
  the last position. On the table of the specification's own example the header list is
  \<open>name, status\<close>: the pattern's group is the text between the outer pipes, so splitting
  it yields no boundary cells.
\<close>

theorem markdown_header_counterexample:
  "row_cells (hd (table_rows
      (''| name | status |'' @ [CHR 0x0A] @ ''|---|---|'' @ [CHR 0x0A] @ ''| t1 | FAIL |'')))
     = [''name'', ''status'']
   \<and> hd (row_cells (hd (table_rows
      (''| name | status |'' @ [CHR 0x0A] @ ''|---|---|'' @ [CHR 0x0A] @ ''| t1 | FAIL |'')))) \<noteq> []
   \<and> last (row_cells (hd (table_rows
      (''| name | status |'' @ [CHR 0x0A] @ ''|---|---|'' @ [CHR 0x0A] @ ''| t1 | FAIL |'')))) \<noteq> []"
  by (simp add: table_rows_def split_def table_row_def List.map_filter_simps row_cells_def
      strip_def isspace_def)

lemma row_cells_pipe_lines:
  "\<forall>vs \<in> set vss. vs \<noteq> [] \<and> (\<forall>c \<in> set vs. CHR ''|'' \<notin> set c) \<Longrightarrow>
   map (\<lambda>row. PDict (zip_row headers (row_cells row))) (map (join (CHR ''|'')) vss)
     = map (\<lambda>vs. PDict (zip_row headers (map strip vs))) vss"
  by (induction vss) (simp_all add: row_cells_join)

text \<open>
  C2, amended: the header list is built from the text of row 0 between its outer pipes,
  split on the pipe and stripped. For every text whose table rows are, in this order, a
  header line \<^verbatim>\<open>|h1|...|hn|\<close>, a separator row and one or more data lines
  \<^verbatim>\<open>|v1|...|vm|\<close> (cells without pipe; any other lines may stand before, between and
  after them), and in which the JSON strategy finds nothing to decode, the headers are
  exactly the \<open>n\<close> stripped cells, with no empty cell added at either end, and the result
  holds one mapping for each data line, in order: its stripped cells zipped by position
  with the headers.
\<close>

theorem markdown_headers_between_outer_pipes:
  assumes ls: "ls \<noteq> []" "\<forall>l \<in> set ls. CHR 0x0A \<notin> set l"
    and rows: "filter (\<lambda>l. table_row l \<noteq> None) ls = pipe_line hs # sep # map pipe_line vss"
    and hs: "hs \<noteq> []" "\<forall>c \<in> set hs. CHR ''|'' \<notin> set c"
    and vss: "vss \<noteq> []" "\<forall>vs \<in> set vss. vs \<noteq> [] \<and> (\<forall>c \<in> set vs. CHR ''|'' \<notin> set c)"
    and json: "brace_span (join (CHR 0x0A) ls) = None
               \<or> (\<exists>span. brace_span (join (CHR 0x0A) ls) = Some span \<and> loads span = Inl JSONDecodeError)"
  shows "table_rows (join (CHR 0x0A) ls)
           = join (CHR ''|'') hs # the (table_row sep) # map (join (CHR ''|'')) vss
       \<and> row_cells (hd (table_rows (join (CHR 0x0A) ls))) = map strip hs
       \<and> extract_test_results loads (PyStr (join (CHR 0x0A) ls))
           = Inr (PDict [(''test_cases'',
                PList (map (\<lambda>vs. PDict (zip_row (map strip hs) (map strip vs))) vss))])"
proof -
  define doc where "doc = join (CHR 0x0A) ls"
  have "table_rows doc = List.map_filter table_row ls"
    unfolding doc_def using ls by (rule table_rows_lines)
  also have "\<dots> = map (the \<circ> table_row) (pipe_line hs # sep # map pipe_line vss)"
    using rows by (simp add: List.map_filter_def)
  also have "\<dots> = join (CHR ''|'') hs # the (table_row sep) # map (join (CHR ''|'')) vss"
    by (simp add: table_row_pipe_line)
  finally have r: "table_rows doc
      = join (CHR ''|'') hs # the (table_row sep) # map (join (CHR ''|'')) vss" .
  have hcells: "row_cells (join (CHR ''|'') hs) = map strip hs"
    using hs by (rule row_cells_join)
  have len: "3 \<le> length (table_rows doc)"
    using r vss(1) by (cases vss) simp_all
  have md: "markdown_table doc
      = Some (PDict [(''test_cases'',
                PList (map (\<lambda>vs. PDict (zip_row (map strip hs) (map strip vs))) vss))])"
    using len row_cells_pipe_lines [OF vss(2), of "map strip hs"]
    by (simp add: markdown_table_def r hcells)
  have body: "extract_body loads doc = Inr (markdown_table doc)"
    using json unfolding doc_def by (auto simp: extract_body_def)
  have "extract_test_results loads (PyStr doc)
      = Inr (PDict [(''test_cases'',
                PList (map (\<lambda>vs. PDict (zip_row (map strip hs) (map strip vs))) vss))])"
    by (simp add: extract_test_results_def body md)
  then show ?thesis
    using r hcells unfolding doc_def by simp
qed

theorem markdown_headers_between_outer_pipes_witness:
  "filter (\<lambda>l. table_row l \<noteq> None)
      [''Results:'', ''| name | status |'', ''|---|---|'', ''| t1 | FAIL |'', ''| t2 | PASS | extra |'', ''done'']
     = pipe_line ['' name '', '' status ''] # ''|---|---|''
       # map pipe_line [['' t1 '', '' FAIL ''], ['' t2 '', '' PASS '', '' extra '']]
   \<and> brace_span (join (CHR 0x0A)
      [''Results:'', ''| name | status |'', ''|---|---|'', ''| t1 | FAIL |'', ''| t2 | PASS | extra |'', ''done'']) = None
   \<and> extract_test_results (json_loads id)
     (PyStr (''Results:'' @ [CHR 0x0A] @ ''| name | status |'' @ [CHR 0x0A] @ ''|---|---|'' @ [CHR 0x0A]
             @ ''| t1 | FAIL |'' @ [CHR 0x0A] @ ''| t2 | PASS | extra |'' @ [CHR 0x0A] @ ''done''))
   = Inr (PDict [(''test_cases'',
        PList [PDict [(''name'', PStr ''t1''), (''status'', PStr ''FAIL'')],
               PDict [(''name'', PStr ''t2''), (''status'', PStr ''PASS'')]])])"
proof -
  let ?ls = "[''Results:'', ''| name | status |'', ''|---|---|'', ''| t1 | FAIL |'', ''| t2 | PASS | extra |'', ''done'']"
  have rows: "filter (\<lambda>l. table_row l \<noteq> None) ?ls
     = pipe_line ['' name '', '' status ''] # ''|---|---|''
       # map pipe_line [['' t1 '', '' FAIL ''], ['' t2 '', '' PASS '', '' extra '']]"
    by (simp add: table_row_def pipe_line_def)
  have span: "brace_span (join (CHR 0x0A) ?ls) = None"
    by (simp add: brace_span_def)
  have nl: "\<forall>l \<in> set ?ls. CHR 0x0A \<notin> set l" by simp
  have z: "map (\<lambda>vs. PDict (zip_row (map strip ['' name '', '' status '']) (map strip vs)))
             [['' t1 '', '' FAIL ''], ['' t2 '', '' PASS '', '' extra '']]
           = [PDict [(''name'', PStr ''t1''), (''status'', PStr ''FAIL'')],
               PDict [(''name'', PStr ''t2''), (''status'', PStr ''PASS'')]]"
    by (simp add: zip_row_def strip_def isspace_def)
  have v: "extract_test_results (json_loads id)
     (PyStr (''Results:'' @ [CHR 0x0A] @ ''| name | status |'' @ [CHR 0x0A] @ ''|---|---|'' @ [CHR 0x0A]
             @ ''| t1 | FAIL |'' @ [CHR 0x0A] @ ''| t2 | PASS | extra |'' @ [CHR 0x0A] @ ''done''))
   = Inr (PDict [(''test_cases'',
        PList [PDict [(''name'', PStr ''t1''), (''status'', PStr ''FAIL'')],
               PDict [(''name'', PStr ''t2''), (''status'', PStr ''PASS'')]])])"
    by code_simp
  show ?thesis
    using markdown_headers_between_outer_pipes
      [of ?ls "['' name '', '' status '']" "''|---|---|''"
          "[['' t1 '', '' FAIL ''], ['' t2 '', '' PASS '', '' extra '']]" "json_loads id"]
      rows span nl z v
    by simp
qed


section \<open>extract_test_results: no exception leaves it\<close>

lemma markdown_table_None_iff: "markdown_table t = None \<longleftrightarrow> length (table_rows t) < 3"
  by (auto simp: markdown_table_def Let_def)

text \<open>
  C6, as stated: when neither strategy produces a result, the record returned holds the
  normalized input text, that is, the text stripped of surrounding whitespace. The
  function does not strip: on a text with a trailing blank the record holds the blank.
\<close>

theorem extract_test_results_unstripped_counterexample:
  "extract_test_results (json_loads id) (PyStr ''all good '')
     = Inr (PDict [(''raw_output'', PStr ''all good '')])
   \<and> strip (response_text (PyStr ''all good '')) = ''all good''
   \<and> extract_test_results (json_loads id) (PyStr ''all good '')
     \<noteq> Inr (PDict [(''raw_output'', PStr (strip (response_text (PyStr ''all good ''))))])"
  by code_simp

text \<open>
  C6, amended: \<open>extract_test_results\<close> returns for every input. An exception of the
  decoder other than \<open>JSONDecodeError\<close> is caught by the outer handler and the result is
  the raw-output record of the text; when the JSON strategy finds no span or the decoder
  rejects it, and fewer than three table rows are found, the result is the raw-output
  record too. The text in that record is the input as the function reads it (the
  \<open>text\<close> attribute or the string itself), not stripped.
\<close>

theorem extract_test_results_never_raises:
  "(\<exists>v. extract_test_results loads r = Inr v)
   \<and> ((\<exists>span e. brace_span (response_text r) = Some span \<and> loads span = Inl e \<and> e \<noteq> JSONDecodeError)
        \<longrightarrow> extract_test_results loads r = Inr (raw_output (response_text r)))
   \<and> ((brace_span (response_text r) = None
         \<or> (\<exists>span. brace_span (response_text r) = Some span \<and> loads span = Inl JSONDecodeError))
        \<and> length (table_rows (response_text r)) < 3
        \<longrightarrow> extract_test_results loads r = Inr (raw_output (response_text r)))"
proof (intro conjI impI)
  show "\<exists>v. extract_test_results loads r = Inr v"
    by (auto simp: extract_test_results_def Let_def split: sum.splits option.splits)
next
  assume "\<exists>span e. brace_span (response_text r) = Some span \<and> loads span = Inl e \<and> e \<noteq> JSONDecodeError"
  then obtain span e where "brace_span (response_text r) = Some span" "loads span = Inl e"
    "e \<noteq> JSONDecodeError" by blast
  then have "extract_body loads (response_text r) = Inl e"
    by (cases e) (simp_all add: extract_body_def)
  then show "extract_test_results loads r = Inr (raw_output (response_text r))"
    by (simp add: extract_test_results_def)
next
  assume a: "(brace_span (response_text r) = None
         \<or> (\<exists>span. brace_span (response_text r) = Some span \<and> loads span = Inl JSONDecodeError))
        \<and> length (table_rows (response_text r)) < 3"
  then have "markdown_table (response_text r) = None"
    by (simp add: markdown_table_None_iff)
  with a have "extract_body loads (response_text r) = Inr None"
    by (auto simp: extract_body_def)
  then show "extract_test_results loads r = Inr (raw_output (response_text r))"
    by (simp add: extract_test_results_def)
qed

theorem extract_test_results_never_raises_witness:
  "extract_test_results (\<lambda>s. Inl (OtherException ''maximum recursion depth exceeded'')) (PyStr ''{[[]]}'')
     = Inr (PDict [(''raw_output'', PStr ''{[[]]}'')])
   \<and> extract_test_results (\<lambda>s. Inl JSONDecodeError) (PyStr ''1 {error} found'')
     = Inr (PDict [(''raw_output'', PStr ''1 {error} found'')])
   \<and> extract_test_results (\<lambda>s. Inl JSONDecodeError) (PyStr ''all good'')
     = Inr (PDict [(''raw_output'', PStr ''all good'')])"
  using extract_test_results_never_raises
      [of "\<lambda>s. Inl (OtherException ''maximum recursion depth exceeded'')" "PyStr ''{[[]]}''"]
    extract_test_results_never_raises [of "\<lambda>s. Inl JSONDecodeError" "PyStr ''1 {error} found''"]
    extract_test_results_never_raises [of "\<lambda>s. Inl JSONDecodeError" "PyStr ''all good''"]
  by (simp add: brace_span_def table_rows_def split_def table_row_def List.map_filter_simps
      raw_output_def)


section \<open>has_failed_tests: one case of the list\<close>

lemma not_status_key_short: "length k < 4 \<Longrightarrow> \<not> is_status_key k"
proof -
  have a: "\<And>s p. length s < length p \<Longrightarrow> \<not> startswith s p"
  proof -
    fix s p :: string show "length s < length p \<Longrightarrow> \<not> startswith s p"
      by (induction s p rule: startswith.induct) auto
  qed
  have b: "\<And>s p. length s < length p \<Longrightarrow> \<not> contains s p"
  proof -
    fix s p :: string show "length s < length p \<Longrightarrow> \<not> contains s p"
      by (induction s) (auto simp: a)
  qed
  assume "length k < 4"
  then show ?thesis
    by (simp add: is_status_key_def lower_def b)
qed

lemma status_entry_key: "status_entry d = Some kv \<Longrightarrow> is_status_key (fst kv)"
  unfolding status_entry_def by (auto simp: find_Some_iff)

lemma status_entry_map_of:
  "status_entry d = Some kv \<Longrightarrow> map_of d (fst kv) = Some (snd kv)"
proof (induction d)
  case Nil
  then show ?case by (simp add: status_entry_def)
next
  case (Cons a d)
  show ?case
  proof (cases "is_status_key (fst a)")
    case True
    then have "kv = a" using Cons.prems by (simp add: status_entry_def)
    then show ?thesis by (cases a) simp
  next
    case False
    then have rest: "status_entry d = Some kv" using Cons.prems by (simp add: status_entry_def)
    then have "is_status_key (fst kv)" by (rule status_entry_key)
    then have "fst a \<noteq> fst kv" using False by auto
    then show ?thesis using Cons.IH [OF rest] by (cases a) simp
  qed
qed

lemma find_status_key_keys:
  "find_status_key (map (\<lambda>kv. PStr (fst kv)) d) = Inr (map_option fst (status_entry d))"
  unfolding status_entry_def
  by (induction d) auto

lemma check_case_dict:
  "check_case (PDict d) =
     (case status_entry d of
        None \<Rightarrow> Inr False
      | Some kv \<Rightarrow> (case snd kv of PStr v \<Rightarrow> Inr (is_failure_text (lower v)) | x \<Rightarrow> Inl (no_lower x)))"
proof (cases "status_entry d")
  case None
  then show ?thesis
    by (simp add: check_case_def find_status_key_keys)
next
  case (Some kv)
  then have "fst kv \<noteq> []"
    using status_entry_key [OF Some] not_status_key_short [of "fst kv"] by auto
  then show ?thesis
    using Some status_entry_map_of [OF Some]
    by (simp add: check_case_def find_status_key_keys split: pyval.splits)
qed

lemma find_status_key_chars: "find_status_key (map (\<lambda>c. PStr [c]) s) = Inr None"
  by (induction s) (simp_all add: not_status_key_short)

lemma check_case_str: "check_case (PStr s) = Inr False"
  by (simp add: check_case_def find_status_key_chars)

lemma find_status_key_list:
  "find_status_key xs = (if list_ex raising_item xs then
      (case find raising_item xs of Some (PStr k) \<Rightarrow> Inr (Some k) | Some x \<Rightarrow> Inl (no_lower x) | None \<Rightarrow> Inr None)
    else Inr None)"
  by (induction xs rule: find_status_key.induct) auto

lemma check_case_list_raises:
  assumes "list_ex raising_item xs"
  shows "isl (check_case (PList xs))"
proof -
  obtain x where x: "find raising_item xs = Some x" "raising_item x"
    using assms by (cases "find raising_item xs") (auto simp: find_None_iff find_Some_iff list_ex_iff)
  show ?thesis
  proof (cases x)
    case (PStr k)
    then have "k \<noteq> []" using x(2) not_status_key_short [of k] by auto
    then show ?thesis
      using assms x(1) PStr by (simp add: check_case_def find_status_key_list)
  qed (use assms x(1) in \<open>simp_all add: check_case_def find_status_key_list\<close>)
qed

lemma check_case_list_ok: "\<not> list_ex raising_item xs \<Longrightarrow> check_case (PList xs) = Inr False"
  by (simp add: check_case_def find_status_key_list)

lemma check_case_char:
  "(raising_case c \<longrightarrow> isl (check_case c)) \<and> (\<not> raising_case c \<longrightarrow> check_case c = Inr (case_fails c))"
proof (cases c)
  case (PDict d)
  then show ?thesis
    by (auto simp: check_case_dict split: option.splits pyval.splits)
next
  case (PList xs)
  then show ?thesis
    using check_case_list_raises [of xs] check_case_list_ok [of xs] by auto
next
  case (PStr s)
  then show ?thesis by (simp add: check_case_str)
qed (simp_all add: check_case_def)


lemma case_ok_not_raising: "case_ok c \<Longrightarrow> \<not> raising_case c"
proof (cases c)
  case (PDict d)
  assume ok: "case_ok c"
  show ?thesis
  proof (cases "status_entry d")
    case None
    then show ?thesis using PDict by simp
  next
    case (Some kv)
    then have "kv \<in> set d" "is_status_key (fst kv)"
      by (auto simp: status_entry_def find_Some_iff)
    then have "is_str (snd kv)"
      using ok PDict by (auto simp: list_all_iff)
    then show ?thesis using PDict Some by simp
  qed
qed simp_all

lemma check_cases_quiet:
  "\<forall>c \<in> set cs. \<not> raising_case c \<Longrightarrow> check_cases cs = Inr (\<exists>c \<in> set cs. case_fails c)"
proof (induction cs)
  case Nil
  then show ?case by simp
next
  case (Cons x xs)
  then have "check_case x = Inr (case_fails x)"
    using check_case_char [of x] by simp
  then show ?case using Cons by (cases "case_fails x") simp_all
qed

lemma check_cases_raises_iff:
  "isl (check_cases cs) \<longleftrightarrow>
     (\<exists>pre c post. cs = pre @ c # post \<and> raising_case c
        \<and> (\<forall>p \<in> set pre. \<not> raising_case p \<and> \<not> case_fails p))"
proof (induction cs)
  case Nil
  then show ?case by simp
next
  case (Cons x xs)
  show ?case
  proof (cases "raising_case x")
    case True
    then have "isl (check_case x)" using check_case_char [of x] by simp
    then have "isl (check_cases (x # xs))" by (cases "check_case x") simp_all
    moreover have "x # xs = [] @ x # xs \<and> raising_case x \<and> (\<forall>p \<in> set []. \<not> raising_case p \<and> \<not> case_fails p)"
      using True by simp
    ultimately show ?thesis by blast
  next
    case False
    then have cc: "check_case x = Inr (case_fails x)" using check_case_char [of x] by simp
    show ?thesis
    proof (cases "case_fails x")
      case True
      then have "\<not> isl (check_cases (x # xs))" using cc by simp
      moreover have "\<not> (\<exists>pre c post. x # xs = pre @ c # post \<and> raising_case c
        \<and> (\<forall>p \<in> set pre. \<not> raising_case p \<and> \<not> case_fails p))"
        using True False by (auto simp: Cons_eq_append_conv)
      ultimately show ?thesis by blast
    next
      case nf: False
      then have "check_cases (x # xs) = check_cases xs" using cc by simp
      moreover have "(\<exists>pre c post. x # xs = pre @ c # post \<and> raising_case c
        \<and> (\<forall>p \<in> set pre. \<not> raising_case p \<and> \<not> case_fails p))
        \<longleftrightarrow> (\<exists>pre c post. xs = pre @ c # post \<and> raising_case c
        \<and> (\<forall>p \<in> set pre. \<not> raising_case p \<and> \<not> case_fails p))" (is "?L \<longleftrightarrow> ?R")
      proof
        assume ?L
        then obtain pre c post where d: "x # xs = pre @ c # post" "raising_case c"
          "\<forall>p \<in> set pre. \<not> raising_case p \<and> \<not> case_fails p" by blast
        then obtain pre' where "pre = x # pre'" "xs = pre' @ c # post"
          using False by (cases pre) auto
        then show ?R using d by auto
      next
        assume ?R
        then obtain pre c post where d: "xs = pre @ c # post" "raising_case c"
          "\<forall>p \<in> set pre. \<not> raising_case p \<and> \<not> case_fails p" by blast
        then have "x # xs = (x # pre) @ c # post \<and> raising_case c
          \<and> (\<forall>p \<in> set (x # pre). \<not> raising_case p \<and> \<not> case_fails p)"
          using False nf by simp
        then show ?L by blast
      qed
      ultimately show ?thesis using Cons.IH by simp
    qed
  qed
qed


section \<open>has_failed_tests: records with a test_cases list\<close>

text \<open>
  C4, as stated: for a mapping with a \<open>test_cases\<close> list the result is true if and only if
  the lowercase rendering contains "fail" or "error" and some case has a key containing
  "status" or "pass" whose value contains "fail" or "error". It fails on a case whose
  first such key holds a passing text and a later one a failing text: only the first
  key found is looked at, and the function returns false.
\<close>

theorem has_failed_tests_first_key_counterexample:
  "has_failed_tests (PDict [(''test_cases'',
       PList [PDict [(''pass_rate'', PStr ''0%''), (''status'', PStr ''FAIL'')]])]) = Inr False
   \<and> is_failure_text (lower (py_str (PDict [(''test_cases'',
       PList [PDict [(''pass_rate'', PStr ''0%''), (''status'', PStr ''FAIL'')]])])))
   \<and> any_status_key_fails (PDict [(''pass_rate'', PStr ''0%''), (''status'', PStr ''FAIL'')])"
  by code_simp

text \<open>
  C4, amended: for a mapping whose \<open>test_cases\<close> list holds mappings with string values
  under their status/pass keys, the result is true if and only if the lowercase rendering
  of the record contains "fail" or "error" and, in some case, the value of the first key
  containing "status" or "pass" contains "fail" or "error"; a keyword elsewhere in the
  record does not make it true.
\<close>

theorem has_failed_tests_test_cases:
  assumes "map_of d ''test_cases'' = Some (PList cases)" and "\<forall>c \<in> set cases. case_ok c"
  shows "has_failed_tests (PDict d) =
           Inr (is_failure_text (lower (py_str (PDict d))) \<and> (\<exists>c \<in> set cases. case_fails c))"
proof -
  have "\<forall>c \<in> set cases. \<not> raising_case c"
    using assms(2) case_ok_not_raising by blast
  then have "check_cases cases = Inr (\<exists>c \<in> set cases. case_fails c)"
    by (rule check_cases_quiet)
  then show ?thesis
    using assms(1) by (simp add: has_failed_tests_def is_failure_text_def Let_def)
qed

theorem has_failed_tests_test_cases_witness:
  "has_failed_tests (PDict [(''test_cases'', PList [PDict [(''status'', PStr ''PASS'')]]),
                            (''summary'', PStr ''no failures'')]) = Inr False
   \<and> has_failed_tests (PDict [(''test_cases'', PList [PDict [(''status'', PStr ''PASS'')],
                                                      PDict [(''name'', PStr ''t2''), (''Status'', PStr ''FAILED'')]])])
       = Inr True"
proof -
  let ?d1 = "[(''test_cases'', PList [PDict [(''status'', PStr ''PASS'')]]),
              (''summary'', PStr ''no failures'')]"
  let ?c1 = "[PDict [(''status'', PStr ''PASS'')]]"
  let ?c2 = "[PDict [(''status'', PStr ''PASS'')],
              PDict [(''name'', PStr ''t2''), (''Status'', PStr ''FAILED'')]]"
  let ?d2 = "[(''test_cases'', PList ?c2)]"
  have m1: "map_of ?d1 ''test_cases'' = Some (PList ?c1)" by simp
  have ok1: "\<forall>c \<in> set ?c1. case_ok c" by code_simp
  have g1: "is_failure_text (lower (py_str (PDict ?d1)))" by code_simp
  have f1: "\<not> (\<exists>c \<in> set ?c1. case_fails c)" by code_simp
  have m2: "map_of ?d2 ''test_cases'' = Some (PList ?c2)" by simp
  have ok2: "\<forall>c \<in> set ?c2. case_ok c" by code_simp
  have g2: "is_failure_text (lower (py_str (PDict ?d2)))" by code_simp
  have f2: "\<exists>c \<in> set ?c2. case_fails c" by code_simp
  show ?thesis
    using has_failed_tests_test_cases [OF m1 ok1] has_failed_tests_test_cases [OF m2 ok2]
      g1 f1 g2 f2 by simp
qed

text \<open>
  C10, as stated: the function raises when the \<open>test_cases\<close> list contains a case with a
  non-string value under a status/pass key, or a case that is not a mapping. It does not
  when the rendering of the record contains neither keyword (the value 1 under "status"),
  nor on a case that is a string: both records below make it return false.
\<close>

theorem has_failed_tests_gate_counterexample:
  "raising_case (PDict [(''status'', PInt 1)]) \<and> \<not> case_ok (PDict [(''status'', PInt 1)])
   \<and> has_failed_tests (PDict [(''test_cases'', PList [PDict [(''status'', PInt 1)]])]) = Inr False
   \<and> \<not> case_ok (PStr ''fail'')
   \<and> has_failed_tests (PDict [(''test_cases'', PList [PStr ''fail''])]) = Inr False"
  by code_simp

text \<open>
  C10, amended: for a mapping with a \<open>test_cases\<close> list the function raises exactly when
  the lowercase rendering of the record contains "fail" or "error" and the list has a
  raising case that no earlier raising or failing case precedes: a mapping whose first
  status/pass key holds a non-string, a number, boolean or null, or a list holding a
  non-string or a status/pass-like string. It returns a boolean whenever every case is a
  mapping whose status/pass-keyed values are strings.
\<close>

theorem has_failed_tests_raises_iff:
  assumes "map_of d ''test_cases'' = Some (PList cases)"
  shows "(isl (has_failed_tests (PDict d)) \<longleftrightarrow>
            is_failure_text (lower (py_str (PDict d)))
            \<and> (\<exists>pre c post. cases = pre @ c # post \<and> raising_case c
                  \<and> (\<forall>p \<in> set pre. \<not> raising_case p \<and> \<not> case_fails p)))
       \<and> ((\<forall>c \<in> set cases. case_ok c) \<longrightarrow> (\<exists>b. has_failed_tests (PDict d) = Inr b))"
proof
  show "isl (has_failed_tests (PDict d)) \<longleftrightarrow>
            is_failure_text (lower (py_str (PDict d)))
            \<and> (\<exists>pre c post. cases = pre @ c # post \<and> raising_case c
                  \<and> (\<forall>p \<in> set pre. \<not> raising_case p \<and> \<not> case_fails p))"
    using assms check_cases_raises_iff [of cases]
    by (simp add: has_failed_tests_def is_failure_text_def Let_def)
next
  show "(\<forall>c \<in> set cases. case_ok c) \<longrightarrow> (\<exists>b. has_failed_tests (PDict d) = Inr b)"
  proof
    assume "\<forall>c \<in> set cases. case_ok c"
    then have "\<forall>c \<in> set cases. \<not> raising_case c"
      using case_ok_not_raising by blast
    then have "check_cases cases = Inr (\<exists>c \<in> set cases. case_fails c)"
      by (rule check_cases_quiet)
    then show "\<exists>b. has_failed_tests (PDict d) = Inr b"
      using assms by (auto simp: has_failed_tests_def Let_def)
  qed
qed

theorem has_failed_tests_raises_iff_witness:
  "has_failed_tests (PDict [(''test_cases'',
       PList [PDict [(''status'', PStr ''PASS'')], PDict [(''passed'', PBool False), (''error'', PStr ''boom'')]])])
     = Inl (no_lower (PBool False))
   \<and> isl (has_failed_tests (PDict [(''test_cases'',
       PList [PDict [(''status'', PStr ''PASS'')], PDict [(''passed'', PBool False), (''error'', PStr ''boom'')]])]))
   \<and> (\<exists>b. has_failed_tests (PDict [(''test_cases'', PList [PDict [(''status'', PStr ''PASS'')]])]) = Inr b)"
proof -
  let ?c1 = "[PDict [(''status'', PStr ''PASS'')], PDict [(''passed'', PBool False), (''error'', PStr ''boom'')]]"
  let ?d1 = "[(''test_cases'', PList ?c1)]"
  let ?c2 = "[PDict [(''status'', PStr ''PASS'')]]"
  let ?d2 = "[(''test_cases'', PList ?c2)]"
  have m1: "map_of ?d1 ''test_cases'' = Some (PList ?c1)" by simp
  have m2: "map_of ?d2 ''test_cases'' = Some (PList ?c2)" by simp
  have g1: "is_failure_text (lower (py_str (PDict ?d1)))" by code_simp
  have r1: "raising_case (PDict [(''passed'', PBool False), (''error'', PStr ''boom'')])" by code_simp
  have q1: "\<forall>p \<in> set [PDict [(''status'', PStr ''PASS'')]]. \<not> raising_case p \<and> \<not> case_fails p" by code_simp
  have "?c1 = [PDict [(''status'', PStr ''PASS'')]] @ PDict [(''passed'', PBool False), (''error'', PStr ''boom'')] # []"
    by simp
  then have ex: "\<exists>pre c post. ?c1 = pre @ c # post \<and> raising_case c
                  \<and> (\<forall>p \<in> set pre. \<not> raising_case p \<and> \<not> case_fails p)"
    using r1 q1 by blast
  have ok2: "\<forall>c \<in> set ?c2. case_ok c" by code_simp
  have v: "has_failed_tests (PDict ?d1) = Inl (no_lower (PBool False))" by code_simp
  show ?thesis
    using has_failed_tests_raises_iff [OF m1] has_failed_tests_raises_iff [OF m2] g1 ex ok2 v
    by blast
qed

section \<open>The JSON decoder consumes what it reads\<close>

text \<open>
  Each of the three scanning functions returns a text shorter than the one it was given,
  so the length tests in \<open>object_pairs\<close> and \<open>array_items\<close> never fail.
\<close>

lemma push_shorter:
  "push c r = Inr (x, rest) \<Longrightarrow> \<exists>y. r = Inr (y, rest)"
  by (auto simp: push_def split: sum.splits)

lemma scanstring_shorter: "scanstring s = Inr (x, r) \<Longrightarrow> length r < length s"
proof (induction s arbitrary: x rule: scanstring.induct)
  case 1
  then show ?case by simp
next
  case (2 c cs)
  then show ?case
    by (fastforce split: if_splits list.splits option.splits dest!: push_shorter)
qed

lemma skip_ws_le: "length (skip_ws s) \<le> length s"
  by (simp add: skip_ws_def length_dropWhile_le)

lemma scan_number_shorter: "scan_number pf s = Some (v, r) \<Longrightarrow> length r < length s"
proof -
  have i: "\<And>t a b. scan_integer t = Some (a, b) \<Longrightarrow> length b < length t"
  proof -
    fix t a b assume "scan_integer t = Some (a, b)"
    then show "length b < length t"
      by (cases t) (auto simp: scan_integer_def split: if_splits intro: le_imp_less_Suc length_dropWhile_le)
  qed
  have f: "\<And>t a b. scan_fraction t = (a, b) \<Longrightarrow> length b \<le> length t"
  proof -
    fix t a b assume "scan_fraction t = (a, b)"
    then show "length b \<le> length t"
      using length_dropWhile_le [of is_digit "tl (tl t)"]
      by (auto simp: scan_fraction_def split: list.splits if_splits)
  qed
  have e: "\<And>t a b. scan_exponent t = (a, b) \<Longrightarrow> length b \<le> length t"
  proof -
    fix t a b assume "scan_exponent t = (a, b)"
    then show "length b \<le> length t"
      using length_dropWhile_le [of is_digit "tl t"] length_dropWhile_le [of is_digit "tl (tl t)"]
      by (auto simp: scan_exponent_def split: list.splits if_splits)
  qed
  assume a: "scan_number pf s = Some (v, r)"
  define n where "n = length (if s \<noteq> [] \<and> hd s = CHR ''-'' then ''-'' else [])"
  obtain integer r1 where s1: "scan_integer (drop n s) = Some (integer, r1)"
    using a unfolding scan_number_def Let_def n_def by (auto split: option.splits)
  obtain frac r2 where s2: "scan_fraction r1 = (frac, r2)" by (cases "scan_fraction r1")
  obtain ex r3 where s3: "scan_exponent r2 = (ex, r3)" by (cases "scan_exponent r2")
  have "r = r3"
    using a s1 s2 s3 unfolding scan_number_def Let_def n_def by (auto split: if_splits)
  moreover have "length r1 < length (drop n s)" "length r2 \<le> length r1" "length r3 \<le> length r2"
    using i [OF s1] f [OF s2] e [OF s3] by blast+
  ultimately show ?thesis by simp
qed

lemma startswith_length: "startswith s p \<Longrightarrow> length p \<le> length s"
  by (induction s p rule: startswith.induct) auto

lemma scan_shorter:
  "(\<forall>v r. scan_once pf s = Inr (v, r) \<longrightarrow> length r < length s)"
  "(\<forall>ps r. object_pairs pf s1 = Inr (ps, r) \<longrightarrow> length r < length s1)"
  "(\<forall>xs r. array_items pf s2 = Inr (xs, r) \<longrightarrow> length r < length s2)"
proof (induction pf s and pf s1 and pf s2 rule: scan_once_object_pairs_array_items.induct)
  case (1 pf s)
  show ?case
  proof (intro allI impI)
    fix v r assume a: "scan_once pf s = Inr (v, r)"
    show "length r < length s"
    proof (cases s)
      case Nil
      then show ?thesis using a by (subst (asm) scan_once.simps) simp
    next
      case (Cons c cs)
      consider (str) "c = CHR 0x22" | (obj) "c = CHR ''{''" | (arr) "c = CHR ''[''"
        | (other) "c \<noteq> CHR 0x22" "c \<noteq> CHR ''{''" "c \<noteq> CHR ''[''" by blast
      then show ?thesis
      proof cases
        case str
        then obtain x where "scanstring cs = Inr (x, r)"
          using a Cons by (subst (asm) scan_once.simps) (auto split: sum.splits)
        then show ?thesis using scanstring_shorter Cons by fastforce
      next
        case obj
        show ?thesis
        proof (cases "skip_ws cs")
          case Nil
          then show ?thesis using a Cons obj by (subst (asm) scan_once.simps) simp
        next
          case inner: (Cons c' cs')
          have le: "length (c' # cs') \<le> length cs" using skip_ws_le [of cs] inner by simp
          show ?thesis
          proof (cases "c' = CHR ''}''")
            case True
            then have "r = cs'" using a Cons obj inner by (subst (asm) scan_once.simps) simp
            then show ?thesis using le Cons by simp
          next
            case False
            then have q: "c' = CHR 0x22" and "\<exists>ps. object_pairs pf cs' = Inr (ps, r)"
              using a Cons obj inner
              by (subst (asm) scan_once.simps; auto split: if_splits sum.splits)+
            then have "length r < length cs'"
              using "1.IH"(1) [of c cs c' cs'] Cons inner False q obj by auto
            then show ?thesis using le Cons by simp
          qed
        qed
      next
        case arr
        show ?thesis
        proof (cases "skip_ws cs")
          case Nil
          then show ?thesis using a Cons arr by (subst (asm) scan_once.simps) simp
        next
          case inner: (Cons c' cs')
          have le: "length (c' # cs') \<le> length cs" using skip_ws_le [of cs] inner by simp
          show ?thesis
          proof (cases "c' = CHR '']''")
            case True
            then have "r = cs'" using a Cons arr inner by (subst (asm) scan_once.simps) simp
            then show ?thesis using le Cons by simp
          next
            case False
            then have "\<exists>xs. array_items pf (c' # cs') = Inr (xs, r)"
              using a Cons arr inner
              by (subst (asm) scan_once.simps) (auto split: if_splits sum.splits)
            then have "length r < length (c' # cs')"
              using "1.IH"(2) [of c cs c' cs'] Cons inner False arr by auto
            then show ?thesis using le Cons by simp
          qed
        qed
      next
        case other
        have "s \<noteq> []" using Cons by simp
        then show ?thesis
          using a Cons other scan_number_shorter [of pf s v r]
            startswith_length [of s "''null''"] startswith_length [of s "''true''"]
            startswith_length [of s "''false''"] startswith_length [of s "''NaN''"]
            startswith_length [of s "''Infinity''"] startswith_length [of s "''-Infinity''"]
          by (subst (asm) scan_once.simps) (auto split: if_splits option.splits)
      qed
    qed
  qed
next
  case (2 pf s)
  show ?case
  proof (intro allI impI)
    fix ps r assume a: "object_pairs pf s = Inr (ps, r)"
    obtain key r1 where k: "scanstring s = Inr (key, r1)"
      using a by (subst (asm) object_pairs.simps) (auto split: sum.splits)
    obtain c r2 where w1: "skip_ws r1 = c # r2"
      using a k by (subst (asm) object_pairs.simps) (auto split: list.splits)
    have c: "c = CHR '':''" and g: "length (skip_ws r2) < length s"
      using a k w1 by (subst (asm) object_pairs.simps; auto split: if_splits)+
    obtain v r3 where sv: "scan_once pf (skip_ws r2) = Inr (v, r3)"
      using a k w1 c g by (subst (asm) object_pairs.simps) (auto split: sum.splits)
    have l3: "length r3 < length (skip_ws r2)"
      using "2.IH"(1) [of "(key, r1)" key r1 c r2] k w1 c g sv by auto
    obtain c' r4 where w2: "skip_ws r3 = c' # r4"
      using a k w1 c g sv by (subst (asm) object_pairs.simps) (auto split: list.splits)
    have l4: "length (c' # r4) \<le> length r3" using skip_ws_le [of r3] w2 by simp
    show "length r < length s"
    proof (cases "c' = CHR ''}''")
      case True
      then have "r = r4"
        using a k w1 c g sv w2 by (subst (asm) object_pairs.simps) simp
      then show ?thesis using l4 l3 g by simp
    next
      case False
      then have comma: "c' = CHR '',''"
        using a k w1 c g sv w2 by (subst (asm) object_pairs.simps) (auto split: if_splits)
      obtain q r5 where w3: "skip_ws r4 = q # r5"
        using a k w1 c g sv w2 False comma
        by (subst (asm) object_pairs.simps) (auto split: list.splits)
      have q: "q = CHR 0x22" and g2: "length r5 < length s"
        using a k w1 c g sv w2 False comma w3
        by (subst (asm) object_pairs.simps; auto split: if_splits)+
      obtain ps' where "object_pairs pf r5 = Inr (ps', r)"
        using a k w1 c g sv w2 False comma w3 q g2
        by (subst (asm) object_pairs.simps) (auto split: sum.splits)
      then have "length r < length r5"
        using "2.IH"(2) [of "(key, r1)" key r1 c r2 "(v, r3)" v r3 c' r4 q r5]
          k w1 c g sv w2 False comma w3 q g2 by auto
      then show ?thesis using g2 by simp
    qed
  qed
next
  case (3 pf s)
  show ?case
  proof (intro allI impI)
    fix xs r assume a: "array_items pf s = Inr (xs, r)"
    obtain v r1 where sv: "scan_once pf s = Inr (v, r1)"
      using a by (subst (asm) array_items.simps) (auto split: sum.splits)
    have l1: "length r1 < length s" using "3.IH"(1) sv by auto
    obtain c r2 where w: "skip_ws r1 = c # r2"
      using a sv by (subst (asm) array_items.simps) (auto split: list.splits)
    have l2: "length (c # r2) \<le> length r1" using skip_ws_le [of r1] w by simp
    show "length r < length s"
    proof (cases "c = CHR '']''")
      case True
      then have "r = r2" using a sv w by (subst (asm) array_items.simps) simp
      then show ?thesis using l1 l2 by simp
    next
      case False
      then have comma: "c = CHR '',''" and g: "length (skip_ws r2) < length s"
        using a sv w by (subst (asm) array_items.simps; auto split: if_splits)+
      obtain xs' where "array_items pf (skip_ws r2) = Inr (xs', r)"
        using a sv w False comma g by (subst (asm) array_items.simps) (auto split: sum.splits)
      then have "length r < length (skip_ws r2)"
        using "3.IH"(2) [of "(v, r1)" v r1 c r2] sv w False comma g by auto
      then show ?thesis using g by simp
    qed
  qed
qed


section \<open>extract_test_results: the JSON strategy\<close>

lemma brace_span_shape:
  assumes "brace_span t = Some span"
  shows "\<exists>pre mid post. t = pre @ span @ post \<and> span = CHR ''{'' # mid @ [CHR ''}'']
           \<and> CHR ''{'' \<notin> set pre \<and> CHR ''}'' \<notin> set post"
proof -
  let ?open = "\<lambda>c. c \<noteq> CHR ''{''" and ?close = "\<lambda>c. c \<noteq> CHR ''}''"
  obtain b rest where d1: "dropWhile ?open t = b # rest"
    using assms by (auto simp: brace_span_def split: list.splits)
  obtain e ts where d2: "dropWhile ?close (rev rest) = e # ts"
    using assms d1 by (auto simp: brace_span_def split: list.splits)
  have span: "span = b # rev (e # ts)"
    using assms d1 d2 by (simp add: brace_span_def)
  have b: "b = CHR ''{''"
    using hd_dropWhile [of ?open t] d1 by simp
  have e: "e = CHR ''}''"
    using hd_dropWhile [of ?close "rev rest"] d2 by simp
  have t: "t = takeWhile ?open t @ b # rest"
    using takeWhile_dropWhile_id [of ?open t] d1 by simp
  have "rev rest = takeWhile ?close (rev rest) @ e # ts"
    using takeWhile_dropWhile_id [of ?close "rev rest"] d2 by simp
  then have "rev (rev rest) = rev (takeWhile ?close (rev rest) @ e # ts)"
    by simp
  then have rest: "rest = rev (e # ts) @ rev (takeWhile ?close (rev rest))"
    by simp
  have pre: "CHR ''{'' \<notin> set (takeWhile ?open t)"
    by (auto dest: set_takeWhileD)
  have post: "CHR ''}'' \<notin> set (rev (takeWhile ?close (rev rest)))"
    by (auto dest: set_takeWhileD)
  have "t = takeWhile ?open t @ span @ rev (takeWhile ?close (rev rest))"
    using t rest span by (metis append_Cons)
  moreover have "span = CHR ''{'' # rev ts @ [CHR ''}'']"
    using span b e by simp
  ultimately show ?thesis
    using pre post by blast
qed

lemma skip_ws_brace: "skip_ws (CHR ''{'' # s) = CHR ''{'' # s"
  by (simp add: skip_ws_def is_json_ws_def)

lemma scan_once_brace:
  "scan_once pf (CHR ''{'' # s) = Inr (v, rest) \<Longrightarrow> is_dict v"
  by (subst (asm) scan_once.simps) (auto split: list.splits if_splits sum.splits)

lemma json_loads_objects: "decodes_objects (json_loads pf)"
  unfolding decodes_objects_def json_loads_def
  by (auto simp: skip_ws_brace split: sum.splits if_splits dest: scan_once_brace)

lemma markdown_table_dict: "markdown_table t = Some v \<Longrightarrow> is_dict v"
  by (auto simp: markdown_table_def Let_def split: if_splits)

lemma extract_test_results_dict:
  assumes "decodes_objects loads"
  shows "\<exists>d. extract_test_results loads r = Inr (PDict d)"
proof -
  have body: "\<And>v. extract_body loads (response_text r) = Inr (Some v) \<Longrightarrow> is_dict v"
  proof -
    fix v assume a: "extract_body loads (response_text r) = Inr (Some v)"
    show "is_dict v"
    proof (cases "brace_span (response_text r)")
      case None
      then show ?thesis using a markdown_table_dict by (simp add: extract_body_def)
    next
      case (Some span)
      then obtain mid where sp: "span = CHR ''{'' # mid @ [CHR ''}'']"
        using brace_span_shape by blast
      show ?thesis
      proof (cases "loads span")
        case (Inr w)
        then have "is_dict w" using assms sp by (auto simp: decodes_objects_def)
        then show ?thesis using a Some Inr by (simp add: extract_body_def)
      next
        case (Inl e)
        then show ?thesis using a Some markdown_table_dict
          by (cases e) (simp_all add: extract_body_def)
      qed
    qed
  qed
  show ?thesis
  proof (cases "extract_body loads (response_text r)")
    case (Inl e)
    then show ?thesis by (simp add: extract_test_results_def raw_output_def)
  next
    case (Inr found)
    show ?thesis
    proof (cases found)
      case None
      then show ?thesis using Inr by (simp add: extract_test_results_def raw_output_def)
    next
      case (Some v)
      then have "is_dict v" using body Inr by simp
      then obtain d where "v = PDict d" by (cases v) simp_all
      then show ?thesis using Inr Some by (simp add: extract_test_results_def)
    qed
  qed
qed

lemma passing_report_record:
  "extract_test_results (json_loads parse_float) (PyStr passing_report)
     = Inr (PDict [(''test_cases'', PList [PDict [(''status'', PStr ''PASS'')]])])"
  by code_simp

lemma failing_report_record:
  "extract_test_results (json_loads parse_float) (PyStr failing_report)
     = Inr (PDict [(''test_cases'', PList [PDict [(''status'', PStr ''FAIL'')]])])"
  by code_simp

lemma passing_record_passes:
  "has_failed_tests (PDict [(''test_cases'', PList [PDict [(''status'', PStr ''PASS'')]])]) = Inr False"
  by code_simp

lemma failing_record_fails:
  "has_failed_tests (PDict [(''test_cases'', PList [PDict [(''status'', PStr ''FAIL'')]])]) = Inr True"
  by code_simp

lemma passing_client_passes: "always_passes (json_loads parse_float) texts prompt passing_client"
  by (simp add: always_passes_def passing_client_def passing_report_record passing_record_passes)

lemma startswith_append: "startswith (p @ zs) p"
  by (induction p) simp_all

lemma contains_append: "contains (xs @ p @ zs) p"
proof (induction xs)
  case Nil
  then show ?case using startswith_append [of p zs] by (cases "p @ zs") auto
next
  case (Cons x xs)
  then show ?case by simp
qed

lemma full_prompt_marker:
  "contains (full_prompt texts prompt code) ''# Generate and evaluate test cases for this code''"
proof -
  have "full_prompt texts prompt code =
          (test_prompt texts @ [CHR 0x0A] @ prompt @ [CHR 0x0A] @ code @ [CHR 0x0A])
          @ ''# Generate and evaluate test cases for this code'' @ [CHR 0x0A]"
    by (simp add: full_prompt_def)
  then show ?thesis
    by (simp only: contains_append)
qed

lemma repairing_client_fails: "always_fails (json_loads parse_float) texts prompt repairing_client"
  by (simp add: always_fails_def repairing_client_def full_prompt_marker
      failing_report_record failing_record_fails)

lemma repairing_client_answers: "always_answers repairing_client"
  by (simp add: always_answers_def repairing_client_def)

lemma dropWhile_all: "\<forall>x \<in> set xs. P x \<Longrightarrow> dropWhile P (xs @ ys) = dropWhile P ys"
  by (induction xs) auto

lemma brace_span_found:
  assumes "CHR ''{'' \<notin> set pre" and "CHR ''}'' \<notin> set post"
  shows "brace_span (pre @ CHR ''{'' # mid @ CHR ''}'' # post) = Some (CHR ''{'' # mid @ [CHR ''}''])"
proof -
  have "\<forall>x \<in> set pre. x \<noteq> CHR ''{''" using assms(1) by auto
  then have "dropWhile (\<lambda>c. c \<noteq> CHR ''{'') (pre @ CHR ''{'' # mid @ CHR ''}'' # post)
          = dropWhile (\<lambda>c. c \<noteq> CHR ''{'') (CHR ''{'' # mid @ CHR ''}'' # post)"
    by (rule dropWhile_all)
  then have d1: "dropWhile (\<lambda>c. c \<noteq> CHR ''{'') (pre @ CHR ''{'' # mid @ CHR ''}'' # post)
          = CHR ''{'' # mid @ CHR ''}'' # post"
    by simp
  have "\<forall>x \<in> set (rev post). x \<noteq> CHR ''}''" using assms(2) by auto
  then have "dropWhile (\<lambda>c. c \<noteq> CHR ''}'') (rev post @ CHR ''}'' # rev mid)
          = dropWhile (\<lambda>c. c \<noteq> CHR ''}'') (CHR ''}'' # rev mid)"
    by (rule dropWhile_all)
  then have d2: "dropWhile (\<lambda>c. c \<noteq> CHR ''}'') (rev (mid @ CHR ''}'' # post)) = CHR ''}'' # rev mid"
    by simp
  show ?thesis
    by (simp only: brace_span_def d1 d2 list.case rev.simps rev_rev_ident)
qed

lemma brace_span_exists:
  "brace_span (pre @ CHR ''{'' # mid @ CHR ''}'' # post) \<noteq> None"
proof -
  let ?t = "pre @ CHR ''{'' # mid @ CHR ''}'' # post"
  let ?open = "\<lambda>c. c \<noteq> CHR ''{''" and ?close = "\<lambda>c. c \<noteq> CHR ''}''"
  have "\<exists>front. dropWhile ?open ?t = front @ CHR ''{'' # mid @ CHR ''}'' # post"
  proof (cases "\<forall>x \<in> set pre. ?open x")
    case True
    then have "dropWhile ?open ?t = dropWhile ?open (CHR ''{'' # mid @ CHR ''}'' # post)"
      by (rule dropWhile_all)
    then have "dropWhile ?open ?t = [] @ CHR ''{'' # mid @ CHR ''}'' # post" by simp
    then show ?thesis by blast
  next
    case False
    then obtain x where "x \<in> set pre" "\<not> ?open x" by blast
    then have "dropWhile ?open ?t = dropWhile ?open pre @ CHR ''{'' # mid @ CHR ''}'' # post"
      by (rule dropWhile_append1)
    then show ?thesis by blast
  qed
  then obtain front where f: "dropWhile ?open ?t = front @ CHR ''{'' # mid @ CHR ''}'' # post"
    by blast
  have "dropWhile ?open ?t \<noteq> []"
    using f by simp
  then obtain b rest where d1: "dropWhile ?open ?t = b # rest"
    by (meson list.exhaust)
  have "CHR ''}'' \<in> set rest"
    using f d1 by (cases front) auto
  then have "dropWhile ?close (rev rest) \<noteq> []"
    by (auto simp: dropWhile_eq_Nil_conv)
  then show ?thesis
    using d1 by (auto simp: brace_span_def split: list.splits)
qed

text \<open>
  C5: the pattern matches exactly when the text has an opening brace with a closing
  brace somewhere after it, and the span is then the part of the text from its first
  opening brace to its last closing brace, over any number of lines; when the decoder
  accepts exactly this span, the decoded value is returned as it is, before any table
  parsing. On the text \<^verbatim>\<open>Result: {"test_cases": [{"status": "PASS"}]}\<close> the result is the
  decoded object.
\<close>

theorem extract_test_results_decodes_brace_span:
  "(\<forall>span. brace_span (response_text r) = Some span \<longleftrightarrow>
      (\<exists>pre mid post. response_text r = pre @ span @ post \<and> span = CHR ''{'' # mid @ [CHR ''}'']
          \<and> CHR ''{'' \<notin> set pre \<and> CHR ''}'' \<notin> set post))
   \<and> (brace_span (response_text r) = None \<longleftrightarrow>
        \<not> (\<exists>pre mid post. response_text r = pre @ CHR ''{'' # mid @ CHR ''}'' # post))
   \<and> (\<forall>span v. brace_span (response_text r) = Some span \<and> loads span = Inr v \<longrightarrow>
        extract_test_results loads r = Inr v)
   \<and> (\<forall>pre mid post v. response_text r = pre @ CHR ''{'' # mid @ CHR ''}'' # post
          \<and> CHR ''{'' \<notin> set pre \<and> CHR ''}'' \<notin> set post
          \<and> loads (CHR ''{'' # mid @ [CHR ''}'']) = Inr v \<longrightarrow>
        extract_test_results loads r = Inr v)
   \<and> extract_test_results (json_loads parse_float) (PyStr (''Result: '' @ passing_report))
       = Inr (PDict [(''test_cases'', PList [PDict [(''status'', PStr ''PASS'')]])])"
proof (intro conjI allI impI)
  fix span
  show "brace_span (response_text r) = Some span \<longleftrightarrow>
      (\<exists>pre mid post. response_text r = pre @ span @ post \<and> span = CHR ''{'' # mid @ [CHR ''}'']
          \<and> CHR ''{'' \<notin> set pre \<and> CHR ''}'' \<notin> set post)"
  proof
    assume "brace_span (response_text r) = Some span"
    then show "\<exists>pre mid post. response_text r = pre @ span @ post \<and> span = CHR ''{'' # mid @ [CHR ''}'']
          \<and> CHR ''{'' \<notin> set pre \<and> CHR ''}'' \<notin> set post"
      by (rule brace_span_shape)
  next
    assume "\<exists>pre mid post. response_text r = pre @ span @ post \<and> span = CHR ''{'' # mid @ [CHR ''}'']
          \<and> CHR ''{'' \<notin> set pre \<and> CHR ''}'' \<notin> set post"
    then obtain pre mid post where t: "response_text r = pre @ span @ post"
      and s: "span = CHR ''{'' # mid @ [CHR ''}'']"
      and p: "CHR ''{'' \<notin> set pre" "CHR ''}'' \<notin> set post" by blast
    have "response_text r = pre @ CHR ''{'' # mid @ CHR ''}'' # post" using t s by simp
    then show "brace_span (response_text r) = Some span"
      using brace_span_found [OF p, of mid] s by simp
  qed
next
  show "brace_span (response_text r) = None \<longleftrightarrow>
        \<not> (\<exists>pre mid post. response_text r = pre @ CHR ''{'' # mid @ CHR ''}'' # post)"
  proof
    assume n: "brace_span (response_text r) = None"
    show "\<not> (\<exists>pre mid post. response_text r = pre @ CHR ''{'' # mid @ CHR ''}'' # post)"
      using n brace_span_exists by force
  next
    assume a: "\<not> (\<exists>pre mid post. response_text r = pre @ CHR ''{'' # mid @ CHR ''}'' # post)"
    show "brace_span (response_text r) = None"
    proof (cases "brace_span (response_text r)")
      case None
      then show ?thesis .
    next
      case (Some span)
      then obtain pre mid post where "response_text r = pre @ span @ post"
        "span = CHR ''{'' # mid @ [CHR ''}'']"
        using brace_span_shape by blast
      then have "response_text r = pre @ CHR ''{'' # mid @ CHR ''}'' # post" by simp
      then show ?thesis using a by blast
    qed
  qed
next
  fix span v assume "brace_span (response_text r) = Some span \<and> loads span = Inr v"
  then show "extract_test_results loads r = Inr v"
    by (simp add: extract_test_results_def extract_body_def)
next
  fix pre mid post v
  assume a: "response_text r = pre @ CHR ''{'' # mid @ CHR ''}'' # post
          \<and> CHR ''{'' \<notin> set pre \<and> CHR ''}'' \<notin> set post
          \<and> loads (CHR ''{'' # mid @ [CHR ''}'']) = Inr v"
  then have "brace_span (response_text r) = Some (CHR ''{'' # mid @ [CHR ''}''])"
    using brace_span_found [of pre post mid] by simp
  then show "extract_test_results loads r = Inr v"
    using a by (simp add: extract_test_results_def extract_body_def)
next
  show "extract_test_results (json_loads parse_float) (PyStr (''Result: '' @ passing_report))
       = Inr (PDict [(''test_cases'', PList [PDict [(''status'', PStr ''PASS'')]])])"
    by code_simp
qed

theorem extract_test_results_decodes_brace_span_witness:
  "brace_span (response_text (PyStr (''Result: '' @ passing_report))) = Some passing_report
   \<and> json_loads id passing_report
       = Inr (PDict [(''test_cases'', PList [PDict [(''status'', PStr ''PASS'')]])])
   \<and> extract_test_results (json_loads id) (PyStr (''Result: '' @ passing_report))
       = Inr (PDict [(''test_cases'', PList [PDict [(''status'', PStr ''PASS'')]])])
   \<and> brace_span (response_text
         (PyStr (''Report:'' @ [CHR 0x0A] @ multiline_report @ [CHR 0x0A] @ ''(end of report)'')))
       = Some multiline_report
   \<and> json_loads id multiline_report
       = Inr (PDict [(''test_cases'', PList [PDict [(''status'', PStr ''FAIL'')]])])
   \<and> extract_test_results (json_loads id)
         (PyStr (''Report:'' @ [CHR 0x0A] @ multiline_report @ [CHR 0x0A] @ ''(end of report)''))
       = Inr (PDict [(''test_cases'', PList [PDict [(''status'', PStr ''FAIL'')]])])"
proof -
  have b1: "brace_span (response_text (PyStr (''Result: '' @ passing_report))) = Some passing_report"
    by code_simp
  have j1: "json_loads id passing_report
             = Inr (PDict [(''test_cases'', PList [PDict [(''status'', PStr ''PASS'')]])])"
    by code_simp
  have b2: "brace_span (response_text
         (PyStr (''Report:'' @ [CHR 0x0A] @ multiline_report @ [CHR 0x0A] @ ''(end of report)'')))
       = Some multiline_report"
    by code_simp
  have j2: "json_loads id multiline_report
       = Inr (PDict [(''test_cases'', PList [PDict [(''status'', PStr ''FAIL'')]])])"
    by code_simp
  show ?thesis
    using extract_test_results_decodes_brace_span
      [of "PyStr (''Result: '' @ passing_report)" "json_loads id" id]
      extract_test_results_decodes_brace_span
      [of "PyStr (''Report:'' @ [CHR 0x0A] @ multiline_report @ [CHR 0x0A] @ ''(end of report)'')"
          "json_loads id" id]
      b1 j1 b2 j2
    by blast
qed


section \<open>The test-and-repair loop: invariants\<close>

lemma py_setitem_dict: "is_dict x \<Longrightarrow> \<exists>d. py_setitem x k v = Inr (PDict d)"
  by (cases x) simp_all

lemma map_of_dict_set: "map_of (dict_set d k v) k = Some v"
  by (induction d) auto

lemma try_body_dict:
  assumes dec: "decodes_objects loads" and d0: "is_dict (final_test_results st)"
    and tb: "try_body loads texts respond prompt st = (eo, st')"
  shows "is_dict (final_test_results st')"
proof -
  obtain x m where r: "respond (client_state st) (full_prompt texts prompt (current_code st)) = (x, m)"
    by (cases "respond (client_state st) (full_prompt texts prompt (current_code st))")
  show ?thesis
  proof (cases x)
    case (Inl e)
    then show ?thesis using r tb d0 by (auto simp: try_body_def)
  next
    case (Inr resp)
    obtain d where ex: "extract_test_results loads (PyStr (response_text resp)) = Inr (PDict d)"
      using extract_test_results_dict [OF dec] by blast
    show ?thesis
    proof (cases "has_failed_tests (PDict d)")
      case (Inl e)
      then show ?thesis using r Inr ex tb by (auto simp: try_body_def)
    next
      case hf: (Inr failed)
      show ?thesis
      proof (cases failed)
        case True
        obtain y m' where a: "analyze_and_fix_code texts respond m (current_code st) (PDict d) prompt = (y, m')"
          by (cases "analyze_and_fix_code texts respond m (current_code st) (PDict d) prompt")
        show ?thesis using r Inr ex hf True a tb
          by (cases y) (auto simp: try_body_def)
      next
        case False
        then show ?thesis using r Inr ex hf tb by (auto simp: try_body_def)
      qed
    qed
  qed
qed

lemma cycle_dict:
  assumes dec: "decodes_objects loads" and d0: "is_dict (final_test_results st)"
  shows "\<exists>st'. (cycle loads texts respond prompt st = Next st'
                 \<or> cycle loads texts respond prompt st = Break st')
               \<and> is_dict (final_test_results st')"
proof -
  obtain eo st1 where tb: "try_body loads texts respond prompt st = (eo, st1)"
    by (cases "try_body loads texts respond prompt st")
  have d1: "is_dict (final_test_results st1)"
    using try_body_dict [OF dec d0 tb] .
  show ?thesis
  proof (cases eo)
    case None
    then show ?thesis using tb d1 by (auto simp: cycle_def)
  next
    case (Some e)
    obtain d where "final_test_results st1 = PDict d"
      using d1 by (cases "final_test_results st1") simp_all
    then show ?thesis using tb Some by (auto simp: cycle_def)
  qed
qed

lemma while_loop_dict:
  "decodes_objects loads \<Longrightarrow> is_dict (final_test_results st) \<Longrightarrow>
         \<exists>it st'. while_loop loads texts respond prompt mx it0 st = Inr (it, st')
                  \<and> is_dict (final_test_results st')"
proof (induction loads texts respond prompt mx it0 st rule: while_loop.induct)
  case (1 loads texts respond prompt mx it0 st)
  show ?case
  proof (cases "\<not> all_tests_pass st \<and> it0 < mx")
    case False
    then show ?thesis using "1.prems" by (subst while_loop.simps) auto
  next
    case True
    obtain st1 where c: "cycle loads texts respond prompt st = Next st1
                 \<or> cycle loads texts respond prompt st = Break st1"
      and d1: "is_dict (final_test_results st1)"
      using cycle_dict [OF "1.prems", of texts respond prompt] by blast
    from c show ?thesis
    proof
      assume n: "cycle loads texts respond prompt st = Next st1"
      then show ?thesis
        using "1.IH" [OF True n "1.prems"(1) d1] True by (subst while_loop.simps) simp
    next
      assume "cycle loads texts respond prompt st = Break st1"
      then show ?thesis using True d1 by (subst while_loop.simps) simp
    qed
  qed
qed

lemma while_loop_bound:
  "while_loop loads texts respond prompt mx it0 st = Inr (it, st') \<Longrightarrow>
     it0 \<le> it \<and> (it \<le> mx \<or> it = it0)"
proof (induction loads texts respond prompt mx it0 st rule: while_loop.induct)
  case (1 loads texts respond prompt mx it0 st)
  show ?case
  proof (cases "\<not> all_tests_pass st \<and> it0 < mx")
    case False
    then show ?thesis using "1.prems" by (subst (asm) while_loop.simps) auto
  next
    case True
    show ?thesis
    proof (cases "cycle loads texts respond prompt st")
      case (Next st1)
      then have "while_loop loads texts respond prompt mx (it0 + 1) st1 = Inr (it, st')"
        using "1.prems" True by (subst (asm) while_loop.simps) simp
      then have "it0 + 1 \<le> it \<and> (it \<le> mx \<or> it = it0 + 1)"
        using "1.IH" [OF True Next] by simp
      then show ?thesis using True by auto
    next
      case (Break st1)
      then show ?thesis using "1.prems" True by (subst (asm) while_loop.simps) auto
    next
      case (Raise e)
      then show ?thesis using "1.prems" True by (subst (asm) while_loop.simps) auto
    qed
  qed
qed

lemma try_body_calls:
  assumes cc: "counts_calls calls respond"
    and tb: "try_body loads texts respond prompt st = (eo, st')"
  shows "calls (client_state st) < calls (client_state st')
       \<and> calls (client_state st') \<le> calls (client_state st) + 2"
proof -
  obtain x m where r: "respond (client_state st) (full_prompt texts prompt (current_code st)) = (x, m)"
    by (cases "respond (client_state st) (full_prompt texts prompt (current_code st))")
  have m: "calls m = Suc (calls (client_state st))"
    using cc r unfolding counts_calls_def by (metis snd_conv)
  show ?thesis
  proof (cases x)
    case (Inl e)
    then show ?thesis using r tb m by (auto simp: try_body_def)
  next
    case (Inr resp)
    show ?thesis
    proof (cases "extract_test_results loads (PyStr (response_text resp))")
      case (Inl e)
      then show ?thesis using r Inr tb m by (auto simp: try_body_def)
    next
      case ex: (Inr rcd)
      show ?thesis
      proof (cases "has_failed_tests rcd")
        case (Inl e)
        then show ?thesis using r Inr ex tb m by (auto simp: try_body_def)
      next
        case hf: (Inr failed)
        show ?thesis
        proof (cases failed)
          case True
          obtain y m' where a: "analyze_and_fix_code texts respond m (current_code st) rcd prompt = (y, m')"
            by (cases "analyze_and_fix_code texts respond m (current_code st) rcd prompt")
          have "\<exists>p. m' = snd (respond m p)"
            using a by (auto simp: analyze_and_fix_code_def Let_def split: prod.splits sum.splits)
              (metis snd_conv)+
          then have "calls m' = Suc (calls m)"
            using cc unfolding counts_calls_def by auto
          then show ?thesis using r Inr ex hf True a tb m
            by (cases y) (auto simp: try_body_def)
        next
          case False
          then show ?thesis using r Inr ex hf tb m
            by (auto simp: try_body_def Let_def split: sum.splits)
        qed
      qed
    qed
  qed
qed

lemma cycle_calls:
  assumes cc: "counts_calls calls respond"
    and c: "cycle loads texts respond prompt st = Next st' \<or> cycle loads texts respond prompt st = Break st'"
  shows "calls (client_state st) < calls (client_state st')
       \<and> calls (client_state st') \<le> calls (client_state st) + 2"
proof -
  obtain eo st1 where tb: "try_body loads texts respond prompt st = (eo, st1)"
    by (cases "try_body loads texts respond prompt st")
  have "client_state st' = client_state st1"
    using c tb by (auto simp: cycle_def split: option.splits sum.splits)
  then show ?thesis using try_body_calls [OF cc tb] by simp
qed

lemma while_loop_calls:
  "counts_calls calls respond \<Longrightarrow>
   while_loop loads texts respond prompt mx it0 st = Inr (it, st') \<Longrightarrow>
     calls (client_state st) + nat (it - it0) \<le> calls (client_state st')
     \<and> calls (client_state st') \<le> calls (client_state st) + 2 * nat (it - it0)"
proof (induction loads texts respond prompt mx it0 st rule: while_loop.induct)
  case (1 loads texts respond prompt mx it0 st)
  show ?case
  proof (cases "\<not> all_tests_pass st \<and> it0 < mx")
    case False
    then show ?thesis using "1.prems" by (subst (asm) while_loop.simps) auto
  next
    case True
    show ?thesis
    proof (cases "cycle loads texts respond prompt st")
      case (Next st1)
      then have w: "while_loop loads texts respond prompt mx (it0 + 1) st1 = Inr (it, st')"
        using "1.prems" True by (subst (asm) while_loop.simps) simp
      have b: "it0 + 1 \<le> it" using while_loop_bound [OF w] by simp
      have "calls (client_state st1) + nat (it - (it0 + 1)) \<le> calls (client_state st')
            \<and> calls (client_state st') \<le> calls (client_state st1) + 2 * nat (it - (it0 + 1))"
        using "1.IH" [OF True Next "1.prems"(1) w] .
      moreover have "calls (client_state st) < calls (client_state st1)
            \<and> calls (client_state st1) \<le> calls (client_state st) + 2"
        using cycle_calls [OF "1.prems"(1)] Next by blast
      moreover have "nat (it - it0) = Suc (nat (it - (it0 + 1)))" using b by simp
      ultimately show ?thesis by simp
    next
      case (Break st1)
      then have "it = it0 + 1" "st' = st1"
        using "1.prems" True by (subst (asm) while_loop.simps; simp)+
      then show ?thesis using cycle_calls [OF "1.prems"(1)] Break by force
    next
      case (Raise e)
      then show ?thesis using "1.prems" True by (subst (asm) while_loop.simps) auto
    qed
  qed
qed

lemma cycle_always_fails:
  assumes dec: "decodes_objects loads" and af: "always_fails loads texts prompt respond"
    and an: "always_answers respond"
  shows "\<exists>st'. cycle loads texts respond prompt st = Next st'
               \<and> all_tests_pass st' = all_tests_pass st
               \<and> is_dict (final_test_results st')
               \<and> (counts_calls calls respond \<longrightarrow>
                     calls (client_state st') = calls (client_state st) + 2)"
proof -
  obtain resp m rcd where r: "respond (client_state st) (full_prompt texts prompt (current_code st)) = (Inr resp, m)"
    and ex: "extract_test_results loads (PyStr (response_text resp)) = Inr rcd"
    and hf: "has_failed_tests rcd = Inr True"
    using af unfolding always_fails_def by blast
  obtain d where d: "rcd = PDict d"
    using extract_test_results_dict [OF dec, of "PyStr (response_text resp)"] ex by auto
  let ?fix = "fix_intro texts @ current_code st @ fix_results texts @ py_str (PDict d)
                       @ fix_problem texts @ prompt @ fix_request texts"
  obtain resp2 m2 where r2: "respond m ?fix = (Inr resp2, m2)"
    using an unfolding always_answers_def by blast
  have tb: "try_body loads texts respond prompt st =
          (None, st\<lparr>client_state := m2, final_test_results := PDict d,
                    current_code := code_extractor (PyStr (response_text resp2))\<rparr>)"
    using r ex hf d r2 by (simp add: try_body_def analyze_and_fix_code_def)
  have "counts_calls calls respond \<longrightarrow> calls m2 = calls (client_state st) + 2"
  proof
    assume cc: "counts_calls calls respond"
    have "calls m = Suc (calls (client_state st))"
      using cc r unfolding counts_calls_def by (metis snd_conv)
    moreover have "calls m2 = Suc (calls m)"
      using cc r2 unfolding counts_calls_def by (metis snd_conv)
    ultimately show "calls m2 = calls (client_state st) + 2" by simp
  qed
  then show ?thesis using tb by (simp add: cycle_def)
qed

lemma while_loop_always_fails:
  "decodes_objects loads \<Longrightarrow> always_fails loads texts prompt respond \<Longrightarrow>
   always_answers respond \<Longrightarrow> \<not> all_tests_pass st \<Longrightarrow>
   is_dict (final_test_results st) \<Longrightarrow> it0 \<le> mx \<Longrightarrow>
     \<exists>st'. while_loop loads texts respond prompt mx it0 st = Inr (mx, st')
          \<and> \<not> all_tests_pass st' \<and> is_dict (final_test_results st')
          \<and> (counts_calls calls respond \<longrightarrow>
                calls (client_state st') = calls (client_state st) + 2 * nat (mx - it0))"
proof (induction loads texts respond prompt mx it0 st rule: while_loop.induct)
  case (1 loads texts respond prompt mx it0 st)
  show ?case
  proof (cases "it0 < mx")
    case False
    then have "it0 = mx" using "1.prems" by simp
    then show ?thesis using "1.prems" by (subst while_loop.simps) simp
  next
    case True
    then have go: "\<not> all_tests_pass st \<and> it0 < mx" using "1.prems" by simp
    obtain st1 where c: "cycle loads texts respond prompt st = Next st1"
      and p1: "\<not> all_tests_pass st1" and d1: "is_dict (final_test_results st1)"
      and n1: "counts_calls calls respond \<longrightarrow> calls (client_state st1) = calls (client_state st) + 2"
      using cycle_always_fails [OF "1.prems"(1,2,3), of st calls] "1.prems"(4) by auto
    have le: "it0 + 1 \<le> mx" using True by simp
    obtain st' where w: "while_loop loads texts respond prompt mx (it0 + 1) st1 = Inr (mx, st')"
      and p: "\<not> all_tests_pass st'" and d: "is_dict (final_test_results st')"
      and n: "counts_calls calls respond \<longrightarrow>
                calls (client_state st') = calls (client_state st1) + 2 * nat (mx - (it0 + 1))"
      using "1.IH" [OF go c "1.prems"(1,2,3) p1 d1 le] by blast
    have "nat (mx - it0) = Suc (nat (mx - (it0 + 1)))" using True by simp
    then have "counts_calls calls respond \<longrightarrow>
                calls (client_state st') = calls (client_state st) + 2 * nat (mx - it0)"
      using n n1 by simp
    moreover have "while_loop loads texts respond prompt mx it0 st = Inr (mx, st')"
      using go c w by (subst while_loop.simps) simp
    ultimately show ?thesis using p d by blast
  qed
qed

lemma cycle_always_passes:
  assumes dec: "decodes_objects loads" and ap: "always_passes loads texts prompt respond"
  shows "\<exists>d. cycle loads texts respond prompt st =
           Next (st\<lparr>client_state := snd (respond (client_state st) (full_prompt texts prompt (current_code st))),
                    final_test_results := PDict (dict_set d ''status'' (PStr ''complete_success'')),
                    all_tests_pass := True\<rparr>)"
proof -
  obtain resp m rcd where r: "respond (client_state st) (full_prompt texts prompt (current_code st)) = (Inr resp, m)"
    and ex: "extract_test_results loads (PyStr (response_text resp)) = Inr rcd"
    and hf: "has_failed_tests rcd = Inr False"
    using ap unfolding always_passes_def by blast
  obtain d where d: "rcd = PDict d"
    using extract_test_results_dict [OF dec, of "PyStr (response_text resp)"] ex by auto
  have "try_body loads texts respond prompt st =
          (None, st\<lparr>client_state := m, final_test_results := PDict (dict_set d ''status'' (PStr ''complete_success'')),
                    all_tests_pass := True\<rparr>)"
    using r ex hf d by (simp add: try_body_def)
  then show ?thesis using r by (auto simp: cycle_def)
qed


section \<open>The test-and-repair loop: outcomes\<close>

text \<open>
  C8, as stated: with a client whose responses always yield a record without detected
  failures the run performs exactly one cycle and the status is \<open>complete_success\<close>.
  With a cap of 0 the loop condition fails at once: no cycle runs, the client is never
  called, and the status is \<open>max_iterations_reached\<close>.
\<close>

theorem repair_loop_cap_zero_counterexample:
  "always_passes (json_loads id) plain_texts ''set x'' passing_client
   \<and> after_loop (json_loads id) plain_texts passing_client 0 ''x = 1'' ''set x'' 0
       = Inr (0, \<lparr>current_code = ''x = 1'', all_tests_pass = False,
                   final_test_results =
                     PDict [(''test_cases'', PList []), (''status'', PStr ''max_iterations_reached'')],
                   client_state = 0\<rparr>)
   \<and> test_case_gen_checker (json_loads id) plain_texts passing_client 0 ''x = 1'' ''set x'' 0
       = Inr (''x = 1'',
              PDict [(''test_cases'', PList []), (''status'', PStr ''max_iterations_reached'')])"
proof (intro conjI)
  show "always_passes (json_loads id) plain_texts ''set x'' passing_client"
    by (rule passing_client_passes)
next
  show "after_loop (json_loads id) plain_texts passing_client 0 ''x = 1'' ''set x'' 0
       = Inr (0, \<lparr>current_code = ''x = 1'', all_tests_pass = False,
                   final_test_results =
                     PDict [(''test_cases'', PList []), (''status'', PStr ''max_iterations_reached'')],
                   client_state = 0\<rparr>)"
    by code_simp
next
  show "test_case_gen_checker (json_loads id) plain_texts passing_client 0 ''x = 1'' ''set x'' 0
       = Inr (''x = 1'',
              PDict [(''test_cases'', PList []), (''status'', PStr ''max_iterations_reached'')])"
    by code_simp
qed

text \<open>
  C8, amended: with a cap of at least one, a decoder of JSON and a client whose responses
  always yield a record without detected failures, a run performs exactly one cycle (the
  counter is 1 at the end and the client has been called once, for the test prompt);
  the status is \<open>complete_success\<close> and the code returned is the initial code.
\<close>

theorem repair_loop_converges_in_one_cycle:
  assumes dec: "decodes_objects loads" and ap: "always_passes loads texts prompt respond"
    and mx: "1 \<le> max_iterations"
  shows "\<exists>st d. after_loop loads texts respond model code prompt max_iterations = Inr (1, st)
           \<and> current_code st = code
           \<and> client_state st = snd (respond model (full_prompt texts prompt code))
           \<and> final_test_results st = PDict d
           \<and> map_of d ''status'' = Some (PStr ''complete_success'')
           \<and> test_case_gen_checker loads texts respond model code prompt max_iterations
               = Inr (code, PDict d)"
proof -
  let ?st0 = "\<lparr>current_code = code, all_tests_pass = False,
              final_test_results = PDict [(''test_cases'', PList []), (''status'', PStr ''incomplete'')],
              client_state = model\<rparr>"
  obtain d where c: "cycle loads texts respond prompt ?st0 =
           Next (?st0\<lparr>client_state := snd (respond model (full_prompt texts prompt code)),
                    final_test_results := PDict (dict_set d ''status'' (PStr ''complete_success'')),
                    all_tests_pass := True\<rparr>)"
    using cycle_always_passes [OF dec ap, of ?st0] by auto
  let ?st1 = "?st0\<lparr>client_state := snd (respond model (full_prompt texts prompt code)),
                    final_test_results := PDict (dict_set d ''status'' (PStr ''complete_success'')),
                    all_tests_pass := True\<rparr>"
  have "while_loop loads texts respond prompt max_iterations 1 ?st1 = Inr (1, ?st1)"
    by (subst while_loop.simps) simp
  then have w: "while_loop loads texts respond prompt max_iterations 0 ?st0 = Inr (1, ?st1)"
    using c mx by (subst while_loop.simps) simp
  have a: "after_loop loads texts respond model code prompt max_iterations = Inr (1, ?st1)"
    unfolding after_loop_def using w by simp
  have t: "test_case_gen_checker loads texts respond model code prompt max_iterations
             = Inr (code, PDict (dict_set d ''status'' (PStr ''complete_success'')))"
    unfolding test_case_gen_checker_def using a by simp
  show ?thesis
    using a t map_of_dict_set [of d "''status''" "PStr ''complete_success''"]
    by (intro exI [of _ ?st1] exI [of _ "dict_set d ''status'' (PStr ''complete_success'')"]) simp
qed

theorem repair_loop_converges_in_one_cycle_witness:
  "decodes_objects (json_loads id) \<and> always_passes (json_loads id) plain_texts ''set x'' passing_client
   \<and> (1::int) \<le> 3
   \<and> (\<exists>st d. after_loop (json_loads id) plain_texts passing_client 0 ''x = 1'' ''set x'' 3 = Inr (1, st)
           \<and> current_code st = ''x = 1''
           \<and> client_state st = snd (passing_client 0 (full_prompt plain_texts ''set x'' ''x = 1''))
           \<and> final_test_results st = PDict d
           \<and> map_of d ''status'' = Some (PStr ''complete_success'')
           \<and> test_case_gen_checker (json_loads id) plain_texts passing_client 0 ''x = 1'' ''set x'' 3
               = Inr (''x = 1'', PDict d))
   \<and> test_case_gen_checker (json_loads id) plain_texts passing_client 0 ''x = 1'' ''set x'' 3
       = Inr (''x = 1'', PDict [(''test_cases'', PList [PDict [(''status'', PStr ''PASS'')]]),
                               (''status'', PStr ''complete_success'')])"
proof -
  have h1: "decodes_objects (json_loads id)" by (rule json_loads_objects)
  have h2: "always_passes (json_loads id) plain_texts ''set x'' passing_client"
    by (rule passing_client_passes)
  have h3: "(1::int) \<le> 3" by simp
  have v: "test_case_gen_checker (json_loads id) plain_texts passing_client 0 ''x = 1'' ''set x'' 3
       = Inr (''x = 1'', PDict [(''test_cases'', PList [PDict [(''status'', PStr ''PASS'')]]),
                               (''status'', PStr ''complete_success'')])"
    by code_simp
  show ?thesis
    using repair_loop_converges_in_one_cycle
      [OF h1 h2 h3, of 0 "''x = 1''"] h1 h2 h3 v
    by blast
qed

text \<open>
  C3: the counter starts at 0 and is compared with \<open>max_iterations\<close> before each cycle:
  for a cap that is not negative, a run that returns has performed at most
  \<open>max_iterations\<close> cycles. The loop is defined by recursion on
  \<open>max_iterations - iteration\<close>, which decreases with every cycle, so every run ends.
  With a client that always reports failure and always answers the repair request, the
  run performs exactly \<open>max_iterations\<close> cycles and the status is
  \<open>max_iterations_reached\<close>. The cycles show in the calls of the client: every cycle
  makes one test request and at most one repair request, so a run whose counter ends at
  \<open>n\<close> has called the client between \<open>n\<close> and \<open>2 n\<close> times, and the always-failing run
  has called it exactly twice \<open>max_iterations\<close> times.
\<close>

theorem repair_loop_iteration_cap:
  assumes mx: "0 \<le> max_iterations"
  shows "(\<forall>it st. after_loop loads texts respond model code prompt max_iterations = Inr (it, st)
             \<longrightarrow> 0 \<le> it \<and> it \<le> max_iterations)
       \<and> (decodes_objects loads \<and> always_fails loads texts prompt respond \<and> always_answers respond \<longrightarrow>
            (\<exists>st d. after_loop loads texts respond model code prompt max_iterations
                      = Inr (max_iterations, st)
                \<and> final_test_results st = PDict d
                \<and> map_of d ''status'' = Some (PStr ''max_iterations_reached'')
                \<and> test_case_gen_checker loads texts respond model code prompt max_iterations
                     = Inr (current_code st, PDict d)
                \<and> (counts_calls calls respond \<longrightarrow>
                      calls (client_state st) = calls model + 2 * nat max_iterations)))
       \<and> (counts_calls calls respond \<longrightarrow>
            (\<forall>it st. after_loop loads texts respond model code prompt max_iterations = Inr (it, st)
               \<longrightarrow> calls model + nat it \<le> calls (client_state st)
                   \<and> calls (client_state st) \<le> calls model + 2 * nat it))"
proof (intro conjI allI impI)
  fix it st
  assume a: "after_loop loads texts respond model code prompt max_iterations = Inr (it, st)"
  let ?st0 = "\<lparr>current_code = code, all_tests_pass = False,
              final_test_results = PDict [(''test_cases'', PList []), (''status'', PStr ''incomplete'')],
              client_state = model\<rparr>"
  obtain st1 where "while_loop loads texts respond prompt max_iterations 0 ?st0 = Inr (it, st1)"
    using a by (auto simp: after_loop_def split: sum.splits if_splits)
  then have "0 \<le> it \<and> (it \<le> max_iterations \<or> it = 0)"
    by (rule while_loop_bound)
  then show "0 \<le> it" and "it \<le> max_iterations" using mx by auto
next
  assume h: "decodes_objects loads \<and> always_fails loads texts prompt respond \<and> always_answers respond"
  let ?st0 = "\<lparr>current_code = code, all_tests_pass = False,
              final_test_results = PDict [(''test_cases'', PList []), (''status'', PStr ''incomplete'')],
              client_state = model\<rparr>"
  obtain st1 where w: "while_loop loads texts respond prompt max_iterations 0 ?st0 = Inr (max_iterations, st1)"
    and p1: "\<not> all_tests_pass st1" and d1: "is_dict (final_test_results st1)"
    and n1: "counts_calls calls respond \<longrightarrow>
               calls (client_state st1) = calls (client_state ?st0) + 2 * nat (max_iterations - 0)"
    using while_loop_always_fails [of loads texts prompt respond ?st0 0 max_iterations calls] h mx
    by auto
  obtain d1 where fd: "final_test_results st1 = PDict d1"
    using d1 by (cases "final_test_results st1") simp_all
  let ?d = "dict_set d1 ''status'' (PStr ''max_iterations_reached'')"
  let ?st = "st1\<lparr>final_test_results := PDict ?d\<rparr>"
  have a: "after_loop loads texts respond model code prompt max_iterations = Inr (max_iterations, ?st)"
    unfolding after_loop_def using w p1 fd by simp
  have t: "test_case_gen_checker loads texts respond model code prompt max_iterations
             = Inr (current_code ?st, PDict ?d)"
    unfolding test_case_gen_checker_def using a by simp
  have n: "counts_calls calls respond \<longrightarrow>
             calls (client_state ?st) = calls model + 2 * nat max_iterations"
    using n1 by simp
  show "\<exists>st d. after_loop loads texts respond model code prompt max_iterations
                      = Inr (max_iterations, st)
                \<and> final_test_results st = PDict d
                \<and> map_of d ''status'' = Some (PStr ''max_iterations_reached'')
                \<and> test_case_gen_checker loads texts respond model code prompt max_iterations
                     = Inr (current_code st, PDict d)
                \<and> (counts_calls calls respond \<longrightarrow>
                      calls (client_state st) = calls model + 2 * nat max_iterations)"
    using a t n map_of_dict_set [of d1 "''status''" "PStr ''max_iterations_reached''"]
    by (intro exI [of _ ?st] exI [of _ ?d]) simp
next
  fix it st
  assume cc: "counts_calls calls respond"
    and a: "after_loop loads texts respond model code prompt max_iterations = Inr (it, st)"
  let ?st0 = "\<lparr>current_code = code, all_tests_pass = False,
              final_test_results = PDict [(''test_cases'', PList []), (''status'', PStr ''incomplete'')],
              client_state = model\<rparr>"
  obtain st1 where w: "while_loop loads texts respond prompt max_iterations 0 ?st0 = Inr (it, st1)"
    and cs: "client_state st = client_state st1"
    using a by (auto simp: after_loop_def split: sum.splits if_splits)
  have "calls (client_state ?st0) + nat (it - 0) \<le> calls (client_state st1)
     \<and> calls (client_state st1) \<le> calls (client_state ?st0) + 2 * nat (it - 0)"
    using cc w by (rule while_loop_calls)
  then show "calls model + nat it \<le> calls (client_state st)"
    and "calls (client_state st) \<le> calls model + 2 * nat it"
    using cs by simp_all
qed

theorem repair_loop_iteration_cap_witness:
  "(0::int) \<le> 3 \<and> decodes_objects (json_loads id)
   \<and> always_fails (json_loads id) plain_texts ''set x'' repairing_client
   \<and> always_answers repairing_client
   \<and> counts_calls (\<lambda>n. n) repairing_client
   \<and> (\<exists>st d. after_loop (json_loads id) plain_texts repairing_client 0 ''x = 1'' ''set x'' 3 = Inr (3, st)
                \<and> final_test_results st = PDict d
                \<and> map_of d ''status'' = Some (PStr ''max_iterations_reached'')
                \<and> test_case_gen_checker (json_loads id) plain_texts repairing_client 0 ''x = 1'' ''set x'' 3
                     = Inr (current_code st, PDict d)
                \<and> client_state st = 6)
   \<and> after_loop (json_loads id) plain_texts repairing_client 0 ''x = 1'' ''set x'' 3
       = Inr (3, \<lparr>current_code = ''x = 2'', all_tests_pass = False,
                   final_test_results =
                     PDict [(''test_cases'', PList [PDict [(''status'', PStr ''FAIL'')]]),
                            (''status'', PStr ''max_iterations_reached'')],
                   client_state = 6\<rparr>)
   \<and> test_case_gen_checker (json_loads id) plain_texts repairing_client 0 ''x = 1'' ''set x'' 3
       = Inr (''x = 2'', PDict [(''test_cases'', PList [PDict [(''status'', PStr ''FAIL'')]]),
                               (''status'', PStr ''max_iterations_reached'')])"
proof -
  have h1: "decodes_objects (json_loads id)" by (rule json_loads_objects)
  have h2: "always_fails (json_loads id) plain_texts ''set x'' repairing_client"
    by (rule repairing_client_fails)
  have h3: "(0::int) \<le> 3" by simp
  have h4: "always_answers repairing_client" by (rule repairing_client_answers)
  have h5: "counts_calls (\<lambda>n. n) repairing_client"
    by (simp add: counts_calls_def repairing_client_def)
  have u: "after_loop (json_loads id) plain_texts repairing_client 0 ''x = 1'' ''set x'' 3
       = Inr (3, \<lparr>current_code = ''x = 2'', all_tests_pass = False,
                   final_test_results =
                     PDict [(''test_cases'', PList [PDict [(''status'', PStr ''FAIL'')]]),
                            (''status'', PStr ''max_iterations_reached'')],
                   client_state = 6\<rparr>)"
    by code_simp
  have v: "test_case_gen_checker (json_loads id) plain_texts repairing_client 0 ''x = 1'' ''set x'' 3
       = Inr (''x = 2'', PDict [(''test_cases'', PList [PDict [(''status'', PStr ''FAIL'')]]),
                               (''status'', PStr ''max_iterations_reached'')])"
    by code_simp
  have "\<exists>st d. after_loop (json_loads id) plain_texts repairing_client 0 ''x = 1'' ''set x'' 3 = Inr (3, st)
                \<and> final_test_results st = PDict d
                \<and> map_of d ''status'' = Some (PStr ''max_iterations_reached'')
                \<and> test_case_gen_checker (json_loads id) plain_texts repairing_client 0 ''x = 1'' ''set x'' 3
                     = Inr (current_code st, PDict d)
                \<and> (counts_calls (\<lambda>n. n) repairing_client \<longrightarrow>
                      client_state st = 0 + 2 * nat 3)"
    using repair_loop_iteration_cap
      [OF h3, of "json_loads id" plain_texts repairing_client 0 "''x = 1''" "''set x''" "\<lambda>n. n"]
      h1 h2 h4
    by blast
  then have "\<exists>st d. after_loop (json_loads id) plain_texts repairing_client 0 ''x = 1'' ''set x'' 3 = Inr (3, st)
                \<and> final_test_results st = PDict d
                \<and> map_of d ''status'' = Some (PStr ''max_iterations_reached'')
                \<and> test_case_gen_checker (json_loads id) plain_texts repairing_client 0 ''x = 1'' ''set x'' 3
                     = Inr (current_code st, PDict d)
                \<and> client_state st = 6"
    using h5 by auto
  then show ?thesis
    using h1 h2 h3 h4 h5 u v by blast
qed

text \<open>
  C9: with a decoder that decodes a text starting with an opening brace to nothing but a
  dictionary, \<open>extract_test_results\<close> returns a dictionary for every input (the span
  handed to the decoder starts with a brace, the table strategy and the fallback build
  dictionaries), and every run of the loop reaches its last statement with a dictionary
  in \<open>final_test_results\<close>: the wrapping into \<open>raw_output\<close> is never taken. The decoder
  \<open>json_loads\<close> is such a decoder.
\<close>

theorem extract_test_results_returns_mapping:
  assumes dec: "decodes_objects loads"
  shows "(\<exists>d. extract_test_results loads r = Inr (PDict d))
       \<and> (\<exists>it st. after_loop loads texts respond model code prompt max_iterations = Inr (it, st)
             \<and> is_dict (final_test_results st)
             \<and> test_case_gen_checker loads texts respond model code prompt max_iterations
                 = Inr (current_code st, final_test_results st))"
proof
  show "\<exists>d. extract_test_results loads r = Inr (PDict d)"
    using dec by (rule extract_test_results_dict)
next
  let ?st0 = "\<lparr>current_code = code, all_tests_pass = False,
              final_test_results = PDict [(''test_cases'', PList []), (''status'', PStr ''incomplete'')],
              client_state = model\<rparr>"
  have "is_dict (final_test_results ?st0)" by simp
  then obtain it st1 where w: "while_loop loads texts respond prompt max_iterations 0 ?st0 = Inr (it, st1)"
    and d1: "is_dict (final_test_results st1)"
    using while_loop_dict [OF dec, of ?st0 texts respond prompt max_iterations 0] by blast
  obtain d where fd: "final_test_results st1 = PDict d"
    using d1 by (cases "final_test_results st1") simp_all
  obtain st where a: "after_loop loads texts respond model code prompt max_iterations = Inr (it, st)"
    and d: "is_dict (final_test_results st)"
    using w fd d1 by (cases "\<not> all_tests_pass st1 \<and> it \<ge> max_iterations") (auto simp: after_loop_def)
  have "test_case_gen_checker loads texts respond model code prompt max_iterations
                 = Inr (current_code st, final_test_results st)"
    unfolding test_case_gen_checker_def using a d by simp
  then show "\<exists>it st. after_loop loads texts respond model code prompt max_iterations = Inr (it, st)
             \<and> is_dict (final_test_results st)
             \<and> test_case_gen_checker loads texts respond model code prompt max_iterations
                 = Inr (current_code st, final_test_results st)"
    using a d by blast
qed

theorem extract_test_results_returns_mapping_witness:
  "decodes_objects (json_loads id)
   \<and> (\<exists>d. extract_test_results (json_loads id) (PyStr ''[1, 2] {3}'') = Inr (PDict d))
   \<and> extract_test_results (json_loads id) (PyStr ''[1, 2] {3}'') = Inr (raw_output ''[1, 2] {3}'')
   \<and> (\<exists>it st. after_loop (json_loads id) plain_texts (quota_client 1) 0 ''x = 1'' ''set x'' 3 = Inr (it, st)
             \<and> is_dict (final_test_results st)
             \<and> test_case_gen_checker (json_loads id) plain_texts (quota_client 1) 0 ''x = 1'' ''set x'' 3
                 = Inr (current_code st, final_test_results st))"
proof -
  have h1: "decodes_objects (json_loads id)" by (rule json_loads_objects)
  have v: "extract_test_results (json_loads id) (PyStr ''[1, 2] {3}'') = Inr (raw_output ''[1, 2] {3}'')"
    by code_simp
  show ?thesis
    using extract_test_results_returns_mapping
      [OF h1, of "PyStr ''[1, 2] {3}''" plain_texts "quota_client 1" 0 "''x = 1''" "''set x''" 3] h1 v
    by blast
qed

text \<open>
  C1: when the client raises in the last cycle allowed by the cap, the handler sets the
  status to \<open>error\<close> and leaves the loop, and the statement after the loop then
  overwrites it: the counter equals \<open>max_iterations\<close> and \<open>all_tests_pass\<close> is false. With
  the default cap of 3 and a client that raises at its fifth call (the test request of
  the third cycle) the returned status is \<open>max_iterations_reached\<close>, next to the error
  message. When the client raises at its second call (the repair request of the first
  cycle) the status is \<open>error\<close>.
\<close>

theorem error_status_overwritten_in_last_cycle:
  "test_case_gen_checker (json_loads parse_float) texts (quota_client 4) 0 code prompt 3
     = Inr (failing_report,
            PDict [(''test_cases'', PList [PDict [(''status'', PStr ''FAIL'')]]),
                   (''status'', PStr ''max_iterations_reached''),
                   (''error_message'', PStr ''quota exceeded'')])
   \<and> test_case_gen_checker (json_loads parse_float) texts (quota_client 1) 0 code prompt 3
     = Inr (code,
            PDict [(''test_cases'', PList [PDict [(''status'', PStr ''FAIL'')]]),
                   (''status'', PStr ''error''),
                   (''error_message'', PStr ''quota exceeded'')])"
  by code_simp

end
